theory Spec2Isabelle
  imports Main
begin

section \<open>Exceptions and objects\<close>

text \<open>
  The exceptions that the modelled code can meet. \<open>IncorrectUseOfTheDecoratorError\<close> is
  the class that shoot.py and end_of_wrappers.py raise (the spec calls it
  DecoratorUsageError); \<open>ValueError\<close> is what the queue's task_done() raises when it is
  called more often than put(); \<open>TypeError\<close> is calling an object that is not callable;
  \<open>OtherException\<close> stands for any other class derived from Exception, by name.
  \<open>SystemExit\<close> and \<open>KeyboardInterrupt\<close> derive from BaseException only, so a handler
  \<^verbatim>\<open>except Exception\<close> does not catch them.
\<close>

datatype exn =
    IncorrectUseOfTheDecoratorError string
  | ValueError string
  | TypeError string
  | OtherException string
  | SystemExit
  | KeyboardInterrupt

fun isinstance_Exception :: "exn \<Rightarrow> bool" where
  "isinstance_Exception SystemExit = False"
| "isinstance_Exception KeyboardInterrupt = False"
| "isinstance_Exception _ = True"

text \<open>
  A Python function of positional and keyword arguments, with its raise as a value.
  The function is a HOL function: it computes its outcome from its arguments alone.
\<close>

type_synonym ('a, 'r) pyfun = "'a list \<Rightarrow> (string \<rightharpoonup> 'a) \<Rightarrow> exn + 'r"

text \<open>The objects that can be passed to the decorator: functions and values that are not callable.\<close>

datatype ('a, 'r) pyobj =
    Func "('a, 'r) pyfun"
  | IntObj int
  | StrObj string
  | NoneObj

fun callable :: "('a, 'r) pyobj \<Rightarrow> bool" where
  "callable (Func f) = True"
| "callable _ = False"

definition call_obj :: "('a, 'r) pyobj \<Rightarrow> 'a list \<Rightarrow> (string \<rightharpoonup> 'a) \<Rightarrow> exn + 'r" where
  "call_obj ob a kw =
     (case ob of
        Func f \<Rightarrow> f a kw
      | _ \<Rightarrow> Inl (TypeError ''object is not callable''))"

section \<open>The task queue\<close>

text \<open>
  The queue that a ThreadUnit is given. thread_unit.py calls \<^verbatim>\<open>get()\<close> and
  \<^verbatim>\<open>task_done()\<close> on it, the interface of the queue of Python's standard library,
  whose behaviour is written out here: first in, first out (the spec, 3 and 4.2, says the
  same of a Room's queue); \<open>unfinished_tasks\<close> is the completed-task accounting: put()
  adds one, task_done() takes one away and raises ValueError when there is nothing left
  to take. \<open>task_done_calls\<close> is a ghost field that counts the calls of task_done(), so
  that "task_done() is called" can be stated; no code reads it.
\<close>

record 't queue =
  items :: "'t list"
  unfinished_tasks :: int
  task_done_calls :: nat

definition empty_queue :: "'t queue" where
  "empty_queue = \<lparr>items = [], unfinished_tasks = 0, task_done_calls = 0\<rparr>"

definition queue_put :: "'t \<Rightarrow> 't queue \<Rightarrow> 't queue" where
  "queue_put t q = q\<lparr>items := items q @ [t], unfinished_tasks := unfinished_tasks q + 1\<rparr>"

text \<open>\<^verbatim>\<open>get()\<close> blocks while the queue is empty: \<open>None\<close> is "the caller is still waiting".\<close>

definition queue_get :: "'t queue \<Rightarrow> ('t \<times> 't queue) option" where
  "queue_get q =
     (case items q of
        [] \<Rightarrow> None
      | t # ts \<Rightarrow> Some (t, q\<lparr>items := ts\<rparr>))"

definition queue_task_done :: "'t queue \<Rightarrow> exn option \<times> 't queue" where
  "queue_task_done q =
     (let q' = q\<lparr>task_done_calls := Suc (task_done_calls q)\<rparr>;
          unfinished = unfinished_tasks q - 1
      in if unfinished < 0
         then (Some (ValueError ''task_done() called too many times''), q')
         else (None, q'\<lparr>unfinished_tasks := unfinished\<rparr>))"

section \<open>ThreadUnit (thread_unit.py)\<close>

text \<open>
  One pass through the body of \<^verbatim>\<open>while True\<close> in \<open>ThreadUnit.run\<close>. The state is the
  queue of the unit together with the world \<open>'w\<close> that \<^verbatim>\<open>task.do()\<close> acts on; the method
  \<^verbatim>\<open>do\<close> of the Task class (not among the sources) is the parameter \<open>do_task\<close>, which
  returns the exception it raised, if any, and the world it left behind.
  \<open>Blocked\<close>: the unit waits inside \<^verbatim>\<open>queue.get()\<close>. \<open>Continue\<close>: the pass ended, normally
  or through \<^verbatim>\<open>except Exception as e: pass\<close>, and the loop goes round again.
  \<open>Died\<close>: an exception that is not an instance of Exception left \<open>run\<close>.
\<close>

datatype 's step = Blocked | Continue 's | Died exn 's

definition except_Exception_pass :: "exn \<Rightarrow> 's \<Rightarrow> 's step" where
  "except_Exception_pass e s = (if isinstance_Exception e then Continue s else Died e s)"

definition thread_unit_iteration ::
  "('t \<Rightarrow> 'w \<Rightarrow> exn option \<times> 'w) \<Rightarrow> 't queue \<times> 'w \<Rightarrow> ('t queue \<times> 'w) step" where
  "thread_unit_iteration do_task s =
     (case queue_get (fst s) of
        None \<Rightarrow> Blocked
      | Some (task, q1) \<Rightarrow>
          (case do_task task (snd s) of
             (Some e, w1) \<Rightarrow> except_Exception_pass e (q1, w1)
           | (None, w1) \<Rightarrow>
               (case queue_task_done q1 of
                  (Some e, q2) \<Rightarrow> except_Exception_pass e (q2, w1)
                | (None, q2) \<Rightarrow> Continue (q2, w1))))"

text \<open>
  The loop itself never returns, so it is run on fuel: \<open>Looping\<close> is "the fuel is used up
  and the unit is still going round", \<open>Waiting\<close> is "blocked in get() on an empty queue",
  \<open>Dead\<close> is "an exception left the loop and the thread ended".
\<close>

datatype 's run_result = Looping 's | Waiting 's | Dead exn 's

fun thread_unit_run ::
  "nat \<Rightarrow> ('t \<Rightarrow> 'w \<Rightarrow> exn option \<times> 'w) \<Rightarrow> 't queue \<times> 'w \<Rightarrow> ('t queue \<times> 'w) run_result" where
  "thread_unit_run 0 do_task s = Looping s"
| "thread_unit_run (Suc n) do_task s =
     (case thread_unit_iteration do_task s of
        Blocked \<Rightarrow> Waiting s
      | Continue s' \<Rightarrow> thread_unit_run n do_task s'
      | Died e s' \<Rightarrow> Dead e s')"

fun state_of :: "'s run_result \<Rightarrow> 's" where
  "state_of (Looping s) = s"
| "state_of (Waiting s) = s"
| "state_of (Dead e s) = s"

text \<open>The state after one pass; a blocked unit has changed nothing.\<close>

fun state_after :: "'s \<Rightarrow> 's step \<Rightarrow> 's" where
  "state_after s Blocked = s"
| "state_after s (Continue s') = s'"
| "state_after s (Died e s') = s'"

fun is_dead :: "'s run_result \<Rightarrow> bool" where
  "is_dead (Dead e s) = True"
| "is_dead _ = False"

text \<open>
  A pass at a task is logged when the unit calls \<^verbatim>\<open>task.do()\<close>: the world is paired
  with the list of the tasks whose execution has begun, in that order.
\<close>

definition logged ::
  "('t \<Rightarrow> 'w \<Rightarrow> exn option \<times> 'w) \<Rightarrow> 't \<Rightarrow> 't list \<times> 'w \<Rightarrow> exn option \<times> ('t list \<times> 'w)" where
  "logged do_task t lw =
     (case do_task t (snd lw) of (res, w1) \<Rightarrow> (res, (fst lw @ [t], w1)))"

text \<open>
  What happens to one queue with a single ThreadUnit on it: a submitter puts a task
  (\<open>Put\<close>), or the unit goes through its loop body once (\<open>Pass\<close>). A pass of the body is
  one event: while the unit executes a task it does not touch the queue, so a put that
  falls into an execution has the effect of a put right after it. Once an exception has
  left the loop the thread is gone: nothing is started any more, but the queue still
  takes what is put (\<open>puts_only\<close>).
\<close>

datatype 't event = Put 't | Pass

fun puts_only :: "'t event list \<Rightarrow> 't queue \<Rightarrow> 't queue" where
  "puts_only [] q = q"
| "puts_only (Put t # evs) q = puts_only evs (queue_put t q)"
| "puts_only (Pass # evs) q = puts_only evs q"

fun unit_events ::
  "('t \<Rightarrow> 'w \<Rightarrow> exn option \<times> 'w) \<Rightarrow> 't event list \<Rightarrow> 't queue \<times> 'w
     \<Rightarrow> ('t queue \<times> 'w) run_result" where
  "unit_events do_task [] s = Looping s"
| "unit_events do_task (Put t # evs) s = unit_events do_task evs (queue_put t (fst s), snd s)"
| "unit_events do_task (Pass # evs) s =
     (case thread_unit_iteration do_task s of
        Blocked \<Rightarrow> unit_events do_task evs s
      | Continue s' \<Rightarrow> unit_events do_task evs s'
      | Died e s' \<Rightarrow> Dead e (puts_only evs (fst s'), snd s'))"

definition started :: "('t queue \<times> 't list \<times> 'w) run_result \<Rightarrow> 't list" where
  "started res = fst (snd (state_of res))"

fun puts :: "'t event list \<Rightarrow> 't list" where
  "puts [] = []"
| "puts (Put t # evs) = t # puts evs"
| "puts (Pass # evs) = puts evs"

text \<open>\<open>precedes xs a b\<close>: \<open>a\<close> occurs in \<open>xs\<close> and \<open>b\<close> occurs after its first occurrence.\<close>

fun precedes :: "'a list \<Rightarrow> 'a \<Rightarrow> 'a \<Rightarrow> bool" where
  "precedes [] a b = False"
| "precedes (x # xs) a b = (if x = a then b \<in> set xs else precedes xs a b)"

text \<open>Two ways a \<^verbatim>\<open>task.do()\<close> can fail, for the examples below.\<close>

definition do_raising :: "nat \<Rightarrow> unit \<Rightarrow> exn option \<times> unit" where
  "do_raising t w = (Some (OtherException ''boom''), w)"

definition do_exiting :: "nat \<Rightarrow> unit \<Rightarrow> exn option \<times> unit" where
  "do_exiting t w = (Some SystemExit, w)"

text \<open>Task 0 raises an error, task 1 raises KeyboardInterrupt, every other task returns.\<close>

definition do_mixed :: "nat \<Rightarrow> unit \<Rightarrow> exn option \<times> unit" where
  "do_mixed t w =
     ((if t = 0 then Some (OtherException ''boom'')
       else if t = 1 then Some KeyboardInterrupt
       else None), w)"

definition two_task_queue :: "nat queue" where
  "two_task_queue = \<lparr>items = [0, 1], unfinished_tasks = 2, task_done_calls = 0\<rparr>"

definition do_returning :: "nat \<Rightarrow> unit \<Rightarrow> exn option \<times> unit" where
  "do_returning t w = (None, w)"

definition one_task_queue :: "nat queue" where
  "one_task_queue = \<lparr>items = [0], unfinished_tasks = 1, task_done_calls = 0\<rparr>"

section \<open>Task, Room and RoomKeeper\<close>

text \<open>
  Modelled from the spec: the Task class (spec 3 and 4.1; not among the sources). A task
  holds the target callable, its positional and keyword arguments, the completion flag
  and the result and failure slots.
\<close>

record ('a, 'r) task =
  task_target :: "('a, 'r) pyobj"
  task_args :: "'a list"
  task_kwargs :: "string \<rightharpoonup> 'a"
  completed :: bool
  result_slot :: "'r option"
  failure_slot :: "exn option"

text \<open>Modelled from the spec: \<open>create\<close> of Task (spec 4.1): always succeeds, starts not completed.\<close>

definition task_create ::
  "('a, 'r) pyobj \<Rightarrow> 'a list \<Rightarrow> (string \<rightharpoonup> 'a) \<Rightarrow> ('a, 'r) task" where
  "task_create func a kw =
     \<lparr>task_target = func, task_args = a, task_kwargs = kw,
      completed = False, result_slot = None, failure_slot = None\<rparr>"

text \<open>
  Modelled from the spec: \<open>run\<close> of Task (spec 4.1), which thread_unit.py calls as
  \<^verbatim>\<open>task.do()\<close>: calls the callable with the stored arguments; a normal return is stored
  as the result, any raised error is captured as the failure; both mark the task
  completed. Nothing is raised to the caller of \<open>do\<close>.
\<close>

definition task_do :: "('a, 'r) task \<Rightarrow> ('a, 'r) task" where
  "task_do t =
     (case call_obj (task_target t) (task_args t) (task_kwargs t) of
        Inr v \<Rightarrow> t\<lparr>result_slot := Some v, completed := True\<rparr>
      | Inl e \<Rightarrow> t\<lparr>failure_slot := Some e, completed := True\<rparr>)"

text \<open>
  Modelled from the spec: \<open>await_result\<close> of Task (spec 4.1). \<open>None\<close> is "the reader is
  still suspended" (the task is not completed); after completion the stored failure is
  re-raised (\<open>Inl\<close>) or the stored result is returned (\<open>Inr\<close>). Reading leaves the task
  as it is.
\<close>

definition await_result :: "('a, 'r) task \<Rightarrow> (exn + 'r) option" where
  "await_result t =
     (if \<not> completed t then None
      else case failure_slot t of
             Some e \<Rightarrow> Some (Inl e)
           | None \<Rightarrow> map_option Inr (result_slot t))"

text \<open>
  Modelled from the spec: the Room class (spec 3 and 4.2; not among the sources): a name
  and the queue of its pending tasks. Tasks are objects shared between the caller, the
  queue and the worker, so the queue holds references into the task store below. The
  pool of Workers is not a field: a Worker is the loop of ThreadUnit run on the queue of
  the Room (\<open>worker_run\<close> below).
\<close>

record room =
  room_name :: string
  room_queue :: "nat queue"

text \<open>
  The store: Task objects and Room objects by reference (the index in the list), and the
  mapping of the RoomKeeper from room names to Room references.
\<close>

record ('a, 'r) system =
  tasks :: "('a, 'r) task list"
  rooms :: "room list"
  keeper :: "string \<rightharpoonup> nat"

definition initial_system :: "('a, 'r) system" where
  "initial_system = \<lparr>tasks = [], rooms = [], keeper = Map.empty\<rparr>"

text \<open>
  Modelled from the spec: \<open>get_room\<close> of the RoomKeeper (spec 4.4; room_keeper.py is not
  among the sources; shoot.py reads it as \<^verbatim>\<open>RoomKeeper().room[room_name]\<close>). An absent
  name resolves to "base"; a name with no Room yet gets a new one, which is registered;
  otherwise the existing Room is returned.
\<close>

definition get_room :: "string option \<Rightarrow> ('a, 'r) system \<Rightarrow> nat \<times> ('a, 'r) system" where
  "get_room name_or_default s =
     (let name = (case name_or_default of None \<Rightarrow> ''base'' | Some n \<Rightarrow> n)
      in case keeper s name of
           Some r \<Rightarrow> (r, s)
         | None \<Rightarrow>
             (length (rooms s),
              s\<lparr>rooms := rooms s @ [\<lparr>room_name = name, room_queue = empty_queue\<rparr>],
                keeper := (keeper s)(name \<mapsto> length (rooms s))\<rparr>))"

text \<open>
  Modelled from the spec: \<open>submit\<close> of Room (spec 4.2), which shoot.py calls as
  \<^verbatim>\<open>.do(func, *args, **kwargs)\<close>: constructs a Task, appends it to the tail of the queue
  and returns the handle at once.
\<close>

definition room_do ::
  "nat \<Rightarrow> ('a, 'r) pyobj \<Rightarrow> 'a list \<Rightarrow> (string \<rightharpoonup> 'a) \<Rightarrow> ('a, 'r) system
     \<Rightarrow> nat \<times> ('a, 'r) system" where
  "room_do r func a kw s =
     (let t = length (tasks s)
      in (t, s\<lparr>tasks := tasks s @ [task_create func a kw],
               rooms := (rooms s)[r := (rooms s ! r)\<lparr>room_queue := queue_put t (room_queue (rooms s ! r))\<rparr>]\<rparr>))"

section \<open>shoot (shoot.py) and end_of_wrappers (utils/end_of_wrappers.py)\<close>

text \<open>
  The closure \<open>wrapper\<close> that replaces the decorated function: it picks the room name,
  asks the RoomKeeper for the Room of that name and hands the call to the \<^verbatim>\<open>do\<close> of that
  Room; the Task comes back. The two collaborators that are not among the sources are
  parameters here: \<open>keeper_room name\<close> is \<^verbatim>\<open>RoomKeeper().room[name]\<close> and \<open>do_room\<close> is
  the method \<^verbatim>\<open>do\<close> of a Room.
\<close>

definition wrapper_with ::
  "(string \<Rightarrow> 's \<Rightarrow> 'room \<times> 's) \<Rightarrow> ('room \<Rightarrow> 'f \<Rightarrow> 'a list \<Rightarrow> (string \<rightharpoonup> 'a) \<Rightarrow> 's \<Rightarrow> 'task \<times> 's)
     \<Rightarrow> string option \<Rightarrow> 'f \<Rightarrow> 'a list \<Rightarrow> (string \<rightharpoonup> 'a) \<Rightarrow> 's \<Rightarrow> 'task \<times> 's" where
  "wrapper_with keeper_room do_room room func a kw s =
     (let room_name = (case room of None \<Rightarrow> ''base'' | Some n \<Rightarrow> n);
          (r, s1) = keeper_room room_name s
      in do_room r func a kw s1)"

text \<open>The closure with the RoomKeeper and the Room of the section above.\<close>

definition wrapper ::
  "string option \<Rightarrow> ('a, 'r) pyobj \<Rightarrow> 'a list \<Rightarrow> (string \<rightharpoonup> 'a) \<Rightarrow> ('a, 'r) system
     \<Rightarrow> nat \<times> ('a, 'r) system" where
  "wrapper = wrapper_with (\<lambda>name. get_room (Some name)) room_do"

text \<open>
  What a decorator call returns: the decorator factory itself, or the result of applying
  it. A Python callable of one argument is a function of the argument and the state that
  returns its value or its exception, and the state.
\<close>

datatype ('o, 'w, 's) decoration =
    Factory "'o \<Rightarrow> 's \<Rightarrow> (exn + 'w) \<times> 's"
  | Applied 'w

type_synonym ('a, 'r) wrapped =
  "'a list \<Rightarrow> (string \<rightharpoonup> 'a) \<Rightarrow> ('a, 'r) system \<Rightarrow> nat \<times> ('a, 'r) system"

text \<open>\<open>wrapper_of_wrapper\<close> builds the closure and touches nothing (\<^verbatim>\<open>wraps\<close> copies metadata only).\<close>

definition wrapper_of_wrapper ::
  "string option \<Rightarrow> ('a, 'r) pyobj \<Rightarrow> ('a, 'r) system
     \<Rightarrow> (exn + ('a, 'r) wrapped) \<times> ('a, 'r) system" where
  "wrapper_of_wrapper room func s = (Inr (wrapper room func), s)"

definition usage_message :: string where
  "usage_message = ''You used the awaitable decorator incorrectly. Read the documentation.''"

definition shoot ::
  "('a, 'r) pyobj list \<Rightarrow> string option \<Rightarrow> ('a, 'r) system
     \<Rightarrow> (exn + (('a, 'r) pyobj, ('a, 'r) wrapped, ('a, 'r) system) decoration) \<times> ('a, 'r) system" where
  "shoot args room s =
     (if length args = 0 then (Inr (Factory (wrapper_of_wrapper room)), s)
      else if length args = 1 \<and> callable (args ! 0) then
        (case wrapper_of_wrapper room (args ! 0) s of
           (Inl e, s') \<Rightarrow> (Inl e, s')
         | (Inr w, s') \<Rightarrow> (Inr (Applied w), s'))
      else (Inl (IncorrectUseOfTheDecoratorError usage_message), s))"

definition end_of_wrappers ::
  "('a, 'r) pyobj list \<Rightarrow> (('a, 'r) pyobj \<Rightarrow> 's \<Rightarrow> (exn + 'w) \<times> 's) \<Rightarrow> 's
     \<Rightarrow> (exn + (('a, 'r) pyobj, 'w, 's) decoration) \<times> 's" where
  "end_of_wrappers args wrapper_fn s =
     (if length args = 0 then (Inr (Factory wrapper_fn), s)
      else if length args = 1 \<and> callable (args ! 0) then
        (case wrapper_fn (args ! 0) s of
           (Inl e, s') \<Rightarrow> (Inl e, s')
         | (Inr w, s') \<Rightarrow> (Inr (Applied w), s'))
      else (Inl (IncorrectUseOfTheDecoratorError usage_message), s))"

section \<open>The worker of a Room\<close>

text \<open>\<^verbatim>\<open>task.do()\<close> on the Task object behind a reference: the object is updated in the store.\<close>

definition task_do_at :: "nat \<Rightarrow> ('a, 'r) task list \<Rightarrow> exn option \<times> ('a, 'r) task list" where
  "task_do_at t h = (None, h[t := task_do (h ! t)])"

definition set_room_state :: "nat \<Rightarrow> nat queue \<times> ('a, 'r) task list \<Rightarrow> ('a, 'r) system \<Rightarrow> ('a, 'r) system" where
  "set_room_state r qh s =
     s\<lparr>tasks := snd qh, rooms := (rooms s)[r := (rooms s ! r)\<lparr>room_queue := fst qh\<rparr>]\<rparr>"

text \<open>The ThreadUnit of room \<open>r\<close>, running on fuel over the queue of the room and the task store.\<close>

definition worker_run :: "nat \<Rightarrow> nat \<Rightarrow> ('a, 'r) system \<Rightarrow> ('a, 'r) system run_result" where
  "worker_run n r s =
     (case thread_unit_run n task_do_at (room_queue (rooms s ! r), tasks s) of
        Looping qh \<Rightarrow> Looping (set_room_state r qh s)
      | Waiting qh \<Rightarrow> Waiting (set_room_state r qh s)
      | Dead e qh \<Rightarrow> Dead e (set_room_state r qh s))"

text \<open>
  A Python reference always points at an object. In the store a reference is an index,
  and \<open>wf\<close> says what Python gives for free: every Room that the keeper names and every
  Task that a queue holds is in the store. The empty store is well formed, and the
  operations above keep a well-formed store well formed (lemmas below).
\<close>

definition wf :: "('a, 'r) system \<Rightarrow> bool" where
  "wf s \<longleftrightarrow>
     (\<forall>name r. keeper s name = Some r \<longrightarrow> r < length (rooms s))
     \<and> (\<forall>r t. r < length (rooms s) \<and> t \<in> set (items (room_queue (rooms s ! r)))
            \<longrightarrow> t < length (tasks s))"

text \<open>The name that \<open>wrapper\<close> looks up for a given \<open>room\<close> argument.\<close>

definition room_name_of :: "string option \<Rightarrow> string" where
  "room_name_of room = (case room of None \<Rightarrow> ''base'' | Some n \<Rightarrow> n)"

text \<open>The effect on the task store of \<^verbatim>\<open>task.do()\<close> on the given references, one after the other.\<close>

fun run_tasks :: "nat list \<Rightarrow> ('a, 'r) task list \<Rightarrow> ('a, 'r) task list" where
  "run_tasks [] h = h"
| "run_tasks (t # ts) h = run_tasks ts (h[t := task_do (h ! t)])"

text \<open>
  What happens to the whole store: a call of a wrapped function (\<open>Call\<close>, the arguments
  of \<open>wrapper\<close>), or the worker of room \<open>r\<close> making up to \<open>n\<close> passes of its loop
  (\<open>Work r n\<close>; there is no worker for a Room that does not exist). Reading a task changes
  nothing and so is no event.
\<close>

datatype ('a, 'r) sys_event =
    Call "string option" "('a, 'r) pyobj" "'a list" "string \<rightharpoonup> 'a"
  | Work nat nat

fun system_events :: "('a, 'r) sys_event list \<Rightarrow> ('a, 'r) system \<Rightarrow> ('a, 'r) system" where
  "system_events [] s = s"
| "system_events (Call room func a kw # evs) s =
     system_events evs (snd (wrapper room func a kw s))"
| "system_events (Work r n # evs) s =
     system_events evs (if r < length (rooms s) then state_of (worker_run n r s) else s)"

text \<open>
  The invariant behind "run is invoked exactly once" (spec 4.1): a task that waits in a
  queue has not been run, and it waits in one queue, once.
\<close>

definition once :: "('a, 'r) system \<Rightarrow> bool" where
  "once s \<longleftrightarrow>
     (\<forall>r t. r < length (rooms s) \<and> t \<in> set (items (room_queue (rooms s ! r)))
            \<longrightarrow> \<not> completed (tasks s ! t))
     \<and> (\<forall>r. r < length (rooms s) \<longrightarrow> distinct (items (room_queue (rooms s ! r))))
     \<and> (\<forall>r r' t. r < length (rooms s) \<and> r' < length (rooms s) \<and> r \<noteq> r'
            \<and> t \<in> set (items (room_queue (rooms s ! r)))
            \<longrightarrow> t \<notin> set (items (room_queue (rooms s ! r'))))"

text \<open>
  Following one task through the store: the Task object \<open>tk\<close> behind the reference \<open>t\<close>
  is either still as it was created and waiting in the queue of room \<open>r\<close>, or it is what
  \<^verbatim>\<open>do()\<close> made of it.
\<close>

definition tracked :: "('a, 'r) system \<Rightarrow> nat \<Rightarrow> nat \<Rightarrow> ('a, 'r) task \<Rightarrow> bool" where
  "tracked s t r tk \<longleftrightarrow>
     t < length (tasks s) \<and> r < length (rooms s)
     \<and> ((tasks s ! t = tk \<and> t \<in> set (items (room_queue (rooms s ! r))))
          \<or> tasks s ! t = task_do tk)"

text \<open>Two functions to decorate, for the examples below: one returns, one raises.\<close>

definition add_args :: "(int, int) pyfun" where
  "add_args a kw = Inr (sum_list a)"

definition failing :: "(int, int) pyfun" where
  "failing a kw = Inl (OtherException ''boom'')"

text \<open>The store after \<open>add_args(1, 2)\<close> was called through the decorator and executed.\<close>

definition example_done :: "(int, int) system" where
  "example_done =
     state_of (worker_run 1 0 (snd (wrapper None (Func add_args) [1, 2] Map.empty initial_system)))"

section \<open>The decorator\<close>

text \<open>
  C9. For every tuple of positional arguments and every room, the dispatch written out at
  the end of \<open>shoot\<close> (the factory on no positional argument, the factory applied on one
  callable argument, the misuse error otherwise) gives what \<open>end_of_wrappers\<close> gives for
  the same tuple and the factory \<open>wrapper_of_wrapper\<close> that \<open>shoot\<close> built: the same
  value or the same error, and the same state.
\<close>

theorem shoot_dispatch_is_end_of_wrappers:
  "shoot args room s = end_of_wrappers args (wrapper_of_wrapper room) s"
  by (simp add: shoot_def end_of_wrappers_def)

text \<open>
  C2. When \<open>shoot\<close> gets more than one positional argument, or a single one that is not
  callable, it raises IncorrectUseOfTheDecoratorError at once, as its own result, and
  the state is the one it was called in: no Room has been resolved or created and no
  Task has been created.
\<close>

theorem shoot_misuse_raises:
  assumes "length args > 1 \<or> (length args = 1 \<and> \<not> callable (args ! 0))"
  shows "shoot args room s = (Inl (IncorrectUseOfTheDecoratorError usage_message), s)"
  using assms by (auto simp add: shoot_def)

theorem shoot_misuse_raises_witness:
  "(length [IntObj 1, IntObj 2 :: (int, int) pyobj] > 1
      \<or> (length [IntObj 1, IntObj 2 :: (int, int) pyobj] = 1
           \<and> \<not> callable ([IntObj 1, IntObj 2 :: (int, int) pyobj] ! 0)))
   \<and> shoot [IntObj 1, IntObj 2 :: (int, int) pyobj] None initial_system
       = (Inl (IncorrectUseOfTheDecoratorError usage_message), initial_system)"
  using shoot_misuse_raises [of "[IntObj 1, IntObj 2 :: (int, int) pyobj]" None initial_system]
  by simp

section \<open>The loop of a ThreadUnit\<close>

lemma iteration_unfold:
  assumes "items q = t # ts"
  shows "thread_unit_iteration do_task (q, w) =
     (case do_task t w of
        (Some e, w1) \<Rightarrow> except_Exception_pass e (q\<lparr>items := ts\<rparr>, w1)
      | (None, w1) \<Rightarrow>
          (case queue_task_done (q\<lparr>items := ts\<rparr>) of
             (Some e, q2) \<Rightarrow> except_Exception_pass e (q2, w1)
           | (None, q2) \<Rightarrow> Continue (q2, w1)))"
  using assms by (simp add: thread_unit_iteration_def queue_get_def)

lemma iteration_empty: "items q = [] \<Longrightarrow> thread_unit_iteration do_task (q, w) = Blocked"
  by (simp add: thread_unit_iteration_def queue_get_def)

lemma task_done_raises_Exception:
  "queue_task_done q = (Some e, q') \<Longrightarrow> isinstance_Exception e"
  by (auto simp add: queue_task_done_def Let_def split: if_splits)

text \<open>
  C10. In a pass of the loop that has taken a task from the queue, task_done() is called
  exactly when \<^verbatim>\<open>task.do()\<close> returned without raising: the count of its calls goes up
  by one then, and stays when \<^verbatim>\<open>task.do()\<close> raised; in that case the queue's count
  of unfinished tasks is not updated either.
\<close>

theorem task_done_called_iff_do_returns:
  assumes "items q = t # ts" and "do_task t w = (res, w1)"
  shows "task_done_calls (fst (state_after (q, w) (thread_unit_iteration do_task (q, w))))
           = task_done_calls q + (if res = None then 1 else 0)
         \<and> (res \<noteq> None \<longrightarrow>
              unfinished_tasks (fst (state_after (q, w) (thread_unit_iteration do_task (q, w))))
                = unfinished_tasks q)"
  using assms
  by (cases res)
     (auto simp add: iteration_unfold queue_task_done_def except_Exception_pass_def Let_def)

theorem task_done_called_iff_do_returns_witness:
  "task_done_calls (fst (state_after (one_task_queue, ())
       (thread_unit_iteration do_raising (one_task_queue, ())))) = 0
   \<and> unfinished_tasks (fst (state_after (one_task_queue, ())
       (thread_unit_iteration do_raising (one_task_queue, ())))) = 1
   \<and> task_done_calls (fst (state_after (one_task_queue, ())
       (thread_unit_iteration do_returning (one_task_queue, ())))) = 1"
proof -
  have i: "items one_task_queue = [0]" by (simp add: one_task_queue_def)
  have r: "do_raising 0 () = (Some (OtherException ''boom''), ())"
    by (simp add: do_raising_def)
  have n: "do_returning 0 () = (None, ())" by (simp add: do_returning_def)
  from task_done_called_iff_do_returns [of one_task_queue 0 "[]" do_raising "()", OF i r]
    task_done_called_iff_do_returns [of one_task_queue 0 "[]" do_returning "()", OF i n]
  show ?thesis by (simp add: one_task_queue_def)
qed

text \<open>
  A pass ends in \<open>Died\<close> in one way only: \<^verbatim>\<open>task.do()\<close> on the task it took raised an
  exception that is not an instance of Exception. The ValueError of task_done() is one.
\<close>

lemma iteration_Died_cause:
  assumes "thread_unit_iteration do_task (q, w) = Died e s'"
  shows "\<exists>t ts w1. items q = t # ts \<and> do_task t w = (Some e, w1)
           \<and> \<not> isinstance_Exception e \<and> s' = (q\<lparr>items := ts\<rparr>, w1)"
proof (cases "items q")
  case Nil
  with assms show ?thesis by (simp add: iteration_empty)
next
  case (Cons t ts)
  obtain res w1 where d: "do_task t w = (res, w1)" by (cases "do_task t w")
  obtain r2 q2 where td: "queue_task_done (q\<lparr>items := ts\<rparr>) = (r2, q2)"
    by (cases "queue_task_done (q\<lparr>items := ts\<rparr>)")
  show ?thesis
  proof (cases res)
    case None
    show ?thesis
    proof (cases r2)
      case None
      with \<open>res = None\<close> Cons d td assms show ?thesis by (simp add: iteration_unfold)
    next
      case (Some e2)
      with td have "isinstance_Exception e2" by (simp add: task_done_raises_Exception)
      with \<open>res = None\<close> Some Cons d td assms show ?thesis
        by (simp add: iteration_unfold except_Exception_pass_def)
    qed
  next
    case (Some e1)
    with Cons d assms show ?thesis
      by (auto simp add: iteration_unfold except_Exception_pass_def split: if_splits)
  qed
qed

text \<open>A pass that takes a task leaves the rest of the queue, however it ends.\<close>

lemma iteration_rest:
  assumes "items q = t # ts"
  shows "\<exists>q' w1. items q' = ts \<and>
           (thread_unit_iteration do_task (q, w) = Continue (q', w1)
            \<or> (\<exists>e. thread_unit_iteration do_task (q, w) = Died e (q', w1)))"
proof -
  obtain res w1 where d: "do_task t w = (res, w1)" by (cases "do_task t w")
  obtain r2 q2 where td: "queue_task_done (q\<lparr>items := ts\<rparr>) = (r2, q2)"
    by (cases "queue_task_done (q\<lparr>items := ts\<rparr>)")
  then have i2: "items q2 = ts"
    by (auto simp add: queue_task_done_def Let_def split: if_splits)
  show ?thesis
  proof (cases res)
    case None
    with d td i2 assms show ?thesis
      by (cases r2) (auto simp add: iteration_unfold except_Exception_pass_def)
  next
    case (Some e)
    with d assms show ?thesis
      by (auto simp add: iteration_unfold except_Exception_pass_def)
  qed
qed

lemma run_Dead_cause:
  "thread_unit_run n do_task s = Dead e s'
     \<Longrightarrow> \<not> isinstance_Exception e \<and> (\<exists>t w w1. do_task t w = (Some e, w1))"
proof (induction n arbitrary: s)
  case 0
  then show ?case by simp
next
  case (Suc n)
  show ?case
  proof (cases "thread_unit_iteration do_task s")
    case Blocked
    with Suc.prems show ?thesis by simp
  next
    case (Continue s1)
    with Suc.prems have "thread_unit_run n do_task s1 = Dead e s'" by simp
    then show ?thesis by (rule Suc.IH)
  next
    case (Died e1 s1)
    with Suc.prems have e: "e1 = e" by simp
    obtain q w where s: "s = (q, w)" by (cases s)
    from iteration_Died_cause [of do_task q w e1 s1] Died s e show ?thesis by blast
  qed
qed

text \<open>
  A run of \<open>n\<close> passes reaches only the first \<open>n\<close> tasks of the queue: when none of
  these raises anything but instances of Exception, the run does not die, whatever the
  tasks behind them would do.
\<close>

lemma run_not_dead_prefix:
  "(\<forall>t \<in> set (take n (items q)). \<forall>w e w1. do_task t w = (Some e, w1) \<longrightarrow> isinstance_Exception e)
     \<Longrightarrow> \<not> is_dead (thread_unit_run n do_task (q, w))"
proof (induction n arbitrary: q w)
  case 0
  show ?case by simp
next
  case (Suc n)
  show ?case
  proof (cases "items q")
    case Nil
    then show ?thesis by (simp add: iteration_empty)
  next
    case (Cons t ts)
    from iteration_rest [OF Cons, of do_task w]
    obtain q' w1 where q': "items q' = ts"
      and alt: "thread_unit_iteration do_task (q, w) = Continue (q', w1)
            \<or> (\<exists>e. thread_unit_iteration do_task (q, w) = Died e (q', w1))"
      by blast
    from alt show ?thesis
    proof
      assume c: "thread_unit_iteration do_task (q, w) = Continue (q', w1)"
      from Suc.prems Cons q'
      have "\<forall>t \<in> set (take n (items q')). \<forall>w e w1. do_task t w = (Some e, w1)
              \<longrightarrow> isinstance_Exception e"
        by simp
      from Suc.IH [OF this, of w1] c show ?thesis by simp
    next
      assume "\<exists>e. thread_unit_iteration do_task (q, w) = Died e (q', w1)"
      then obtain e where d: "thread_unit_iteration do_task (q, w) = Died e (q', w1)" by blast
      from iteration_Died_cause [OF d] Cons
      obtain w2 where "do_task t w = (Some e, w2)" "\<not> isinstance_Exception e" by auto
      with Suc.prems Cons show ?thesis by auto
    qed
  qed
qed

lemma run_not_dead:
  assumes "\<forall>t w e w1. do_task t w = (Some e, w1) \<longrightarrow> isinstance_Exception e"
  shows "\<not> is_dead (thread_unit_run n do_task s)"
proof
  assume "is_dead (thread_unit_run n do_task s)"
  then obtain e s' where "thread_unit_run n do_task s = Dead e s'"
    by (cases "thread_unit_run n do_task s") simp_all
  from run_Dead_cause [OF this] assms show False by blast
qed

text \<open>
  C5, as the code has it. The handler of the loop is \<^verbatim>\<open>except Exception\<close>, and it
  decides error by error, for any \<^verbatim>\<open>task.do()\<close>. A pass in which \<^verbatim>\<open>task.do()\<close> raised
  an instance of Exception ends in \<open>Continue\<close>, with the task taken from the queue and
  nothing else changed: the error is swallowed and the loop goes on to the next pass,
  whatever other tasks may raise. A pass in which it raised an exception that is not an
  instance of Exception (SystemExit, KeyboardInterrupt) ends in \<open>Died\<close>: the exception
  is not caught and leaves \<open>run\<close>. A run ends with the thread dead only through such an
  exception raised by a \<^verbatim>\<open>task.do()\<close>; so a run over tasks of which the ones it
  reaches raise nothing but instances of Exception does not die, and when no task ever
  raises anything else no run dies, however long.
\<close>

theorem worker_swallows_Exceptions:
  "(\<forall>q t ts w e w1. items q = t # ts \<and> do_task t w = (Some e, w1)
      \<longrightarrow> thread_unit_iteration do_task (q, w)
            = (if isinstance_Exception e then Continue (q\<lparr>items := ts\<rparr>, w1)
               else Died e (q\<lparr>items := ts\<rparr>, w1)))
   \<and> (\<forall>n s e s'. thread_unit_run n do_task s = Dead e s'
          \<longrightarrow> \<not> isinstance_Exception e \<and> (\<exists>t w w1. do_task t w = (Some e, w1)))
   \<and> (\<forall>n q w. (\<forall>t \<in> set (take n (items q)). \<forall>w e w1. do_task t w = (Some e, w1)
                     \<longrightarrow> isinstance_Exception e)
          \<longrightarrow> \<not> is_dead (thread_unit_run n do_task (q, w)))
   \<and> ((\<forall>t w e w1. do_task t w = (Some e, w1) \<longrightarrow> isinstance_Exception e)
          \<longrightarrow> (\<forall>n s. \<not> is_dead (thread_unit_run n do_task s)))"
proof (intro conjI)
  show "\<forall>q t ts w e w1. items q = t # ts \<and> do_task t w = (Some e, w1)
      \<longrightarrow> thread_unit_iteration do_task (q, w)
            = (if isinstance_Exception e then Continue (q\<lparr>items := ts\<rparr>, w1)
               else Died e (q\<lparr>items := ts\<rparr>, w1))"
    by (auto simp add: iteration_unfold except_Exception_pass_def)
next
  show "\<forall>n s e s'. thread_unit_run n do_task s = Dead e s'
          \<longrightarrow> \<not> isinstance_Exception e \<and> (\<exists>t w w1. do_task t w = (Some e, w1))"
    using run_Dead_cause by blast
next
  show "\<forall>n q w. (\<forall>t \<in> set (take n (items q)). \<forall>w e w1. do_task t w = (Some e, w1)
                     \<longrightarrow> isinstance_Exception e)
          \<longrightarrow> \<not> is_dead (thread_unit_run n do_task (q, w))"
    by (intro allI impI) (rule run_not_dead_prefix)
next
  show "(\<forall>t w e w1. do_task t w = (Some e, w1) \<longrightarrow> isinstance_Exception e)
          \<longrightarrow> (\<forall>n s. \<not> is_dead (thread_unit_run n do_task s))"
    using run_not_dead by blast
qed

theorem worker_swallows_Exceptions_witness:
  "thread_unit_iteration do_mixed (two_task_queue, ())
     = Continue (two_task_queue\<lparr>items := [1]\<rparr>, ())
   \<and> thread_unit_iteration do_mixed (two_task_queue\<lparr>items := [1]\<rparr>, ())
       = Died KeyboardInterrupt (two_task_queue\<lparr>items := []\<rparr>, ())
   \<and> \<not> is_dead (thread_unit_run 1 do_mixed (two_task_queue, ()))
   \<and> \<not> is_dead (thread_unit_run 2 do_raising (one_task_queue, ()))"
proof -
  note thm_mixed = worker_swallows_Exceptions [of do_mixed]
  note thm_raising = worker_swallows_Exceptions [of do_raising]
  have i0: "items two_task_queue = 0 # [1]" by (simp add: two_task_queue_def)
  have d0: "do_mixed 0 () = (Some (OtherException ''boom''), ())" by (simp add: do_mixed_def)
  have i1: "items (two_task_queue\<lparr>items := [1]\<rparr>) = 1 # []" by simp
  have d1: "do_mixed 1 () = (Some KeyboardInterrupt, ())" by (simp add: do_mixed_def)
  from thm_mixed have pass: "\<forall>q t ts w e w1. items q = t # ts \<and> do_mixed t w = (Some e, w1)
      \<longrightarrow> thread_unit_iteration do_mixed (q, w)
            = (if isinstance_Exception e then Continue (q\<lparr>items := ts\<rparr>, w1)
               else Died e (q\<lparr>items := ts\<rparr>, w1))"
    by (rule conjunct1)
  from pass i0 d0
  have a: "thread_unit_iteration do_mixed (two_task_queue, ())
     = (if isinstance_Exception (OtherException ''boom'')
        then Continue (two_task_queue\<lparr>items := [1]\<rparr>, ())
        else Died (OtherException ''boom'') (two_task_queue\<lparr>items := [1]\<rparr>, ()))"
    by blast
  from pass i1 d1
  have b: "thread_unit_iteration do_mixed (two_task_queue\<lparr>items := [1]\<rparr>, ())
     = (if isinstance_Exception KeyboardInterrupt
        then Continue (two_task_queue\<lparr>items := [1]\<rparr>\<lparr>items := []\<rparr>, ())
        else Died KeyboardInterrupt (two_task_queue\<lparr>items := [1]\<rparr>\<lparr>items := []\<rparr>, ()))"
    by blast
  from thm_mixed have pre: "\<forall>n q w. (\<forall>t \<in> set (take n (items q)). \<forall>w e w1.
         do_mixed t w = (Some e, w1) \<longrightarrow> isinstance_Exception e)
          \<longrightarrow> \<not> is_dead (thread_unit_run n do_mixed (q, w))"
    by blast
  have "\<forall>t \<in> set (take 1 (items two_task_queue)). \<forall>w e w1.
         do_mixed t w = (Some e, w1) \<longrightarrow> isinstance_Exception e"
    by (auto simp add: two_task_queue_def do_mixed_def)
  with pre have c: "\<not> is_dead (thread_unit_run 1 do_mixed (two_task_queue, ()))" by blast
  have "\<forall>t w e w1. do_raising t w = (Some e, w1) \<longrightarrow> isinstance_Exception e"
    by (simp add: do_raising_def)
  with thm_raising have d: "\<not> is_dead (thread_unit_run 2 do_raising (one_task_queue, ()))"
    by blast
  from a b c d show ?thesis by simp
qed

text \<open>
  C5 as the spec words it, for every error, does not hold: SystemExit is not an instance
  of Exception, so when \<^verbatim>\<open>task.do()\<close> raises it the handler does not apply, the
  exception leaves \<open>run\<close> and the thread of the unit ends because of that one task.
\<close>

theorem worker_dies_on_SystemExit:
  "thread_unit_iteration do_exiting (one_task_queue, ())
     = Died SystemExit (one_task_queue\<lparr>items := []\<rparr>, ())
   \<and> is_dead (thread_unit_run 1 do_exiting (one_task_queue, ()))"
  by (simp add: thread_unit_iteration_def queue_get_def one_task_queue_def do_exiting_def
      except_Exception_pass_def)

section \<open>Order of execution on one queue\<close>

lemma precedes_in_set: "precedes xs a b \<Longrightarrow> b \<in> set xs"
  by (induction xs) (auto split: if_splits)

lemma precedes_prefix:
  "distinct (xs @ ys) \<Longrightarrow> precedes (xs @ ys) a b \<Longrightarrow> b \<in> set xs \<Longrightarrow> precedes xs a b"
proof (induction xs)
  case Nil
  then show ?case by simp
next
  case (Cons x xs)
  show ?case
  proof (cases "x = a")
    case True
    with Cons.prems show ?thesis by auto
  next
    case False
    with Cons.prems have p: "precedes (xs @ ys) a b" by simp
    then have "b \<in> set (xs @ ys)" by (rule precedes_in_set)
    with Cons.prems have "b \<noteq> x" by auto
    with Cons.prems have "b \<in> set xs" by simp
    with Cons.IH p Cons.prems have "precedes xs a b" by simp
    with False show ?thesis by simp
  qed
qed

text \<open>A pass that finds a task logs it and leaves the rest of the queue, however it ends.\<close>

lemma logged_iteration:
  assumes "items q = t # ts"
  shows "\<exists>q' w1. items q' = ts \<and>
           (thread_unit_iteration (logged do_task) (q, (lg, w)) = Continue (q', (lg @ [t], w1))
            \<or> (\<exists>e. thread_unit_iteration (logged do_task) (q, (lg, w)) = Died e (q', (lg @ [t], w1))))"
proof -
  obtain res w1 where d: "do_task t w = (res, w1)" by (cases "do_task t w")
  obtain r2 q2 where td: "queue_task_done (q\<lparr>items := ts\<rparr>) = (r2, q2)"
    by (cases "queue_task_done (q\<lparr>items := ts\<rparr>)")
  then have i2: "items q2 = ts"
    by (auto simp add: queue_task_done_def Let_def split: if_splits)
  show ?thesis
  proof (cases res)
    case None
    with d td i2 assms show ?thesis
      by (cases r2) (auto simp add: iteration_unfold logged_def except_Exception_pass_def)
  next
    case (Some e)
    with d assms show ?thesis
      by (auto simp add: iteration_unfold logged_def except_Exception_pass_def)
  qed
qed

text \<open>
  The invariant of the queue discipline: what has been started, followed by something
  still to come, is what was in the queue at the beginning followed by what was put.
\<close>

lemma started_is_prefix:
  "\<exists>rest. started (unit_events (logged do_task) evs (q, (lg, w))) @ rest
            = lg @ items q @ puts evs"
proof (induction evs arbitrary: q lg w)
  case Nil
  show ?case by (simp add: started_def)
next
  case (Cons ev evs)
  note ih = Cons.IH
  show ?case
  proof (cases ev)
    case (Put t)
    from ih [where lg = lg and q = "queue_put t q" and w = w] Put show ?thesis
      by (simp add: queue_put_def)
  next
    case Pass
    show ?thesis
    proof (cases "items q")
      case Nil
      with Pass ih [where lg = lg and q = q and w = w] show ?thesis
        by (simp add: iteration_empty)
    next
      case (Cons t ts)
      from logged_iteration [OF Cons, of do_task lg w]
      obtain q' w1 where q': "items q' = ts"
        and alt: "thread_unit_iteration (logged do_task) (q, (lg, w)) = Continue (q', (lg @ [t], w1))
            \<or> (\<exists>e. thread_unit_iteration (logged do_task) (q, (lg, w)) = Died e (q', (lg @ [t], w1)))"
        by blast
      from alt show ?thesis
      proof
        assume c: "thread_unit_iteration (logged do_task) (q, (lg, w)) = Continue (q', (lg @ [t], w1))"
        from ih [where lg = "lg @ [t]" and q = q' and w = w1]
        show ?thesis using c Pass Cons q' by simp
      next
        assume "\<exists>e. thread_unit_iteration (logged do_task) (q, (lg, w)) = Died e (q', (lg @ [t], w1))"
        then show ?thesis using Pass Cons by (auto simp add: started_def)
      qed
    qed
  qed
qed

text \<open>
  C6. One queue, one ThreadUnit on it, any \<^verbatim>\<open>task.do()\<close>, any sequence of puts and
  passes of the loop. The tasks are distinct objects. When Task1 comes before Task2 in
  the order of submission (what was in the queue, then what was put) and the execution of
  Task2 has begun, then the execution of Task1 has begun, and before that of Task2.
\<close>

theorem fifo_start_order:
  assumes "distinct (items q @ puts evs)"
      and "precedes (items q @ puts evs) t1 t2"
      and "t2 \<in> set (started (unit_events (logged do_task) evs (q, ([], w))))"
  shows "precedes (started (unit_events (logged do_task) evs (q, ([], w)))) t1 t2"
proof -
  from started_is_prefix [of do_task evs q "[]" w]
  obtain rest where r: "started (unit_events (logged do_task) evs (q, ([], w))) @ rest
            = items q @ puts evs" by auto
  from assms(1,2) have "distinct (started (unit_events (logged do_task) evs (q, ([], w))) @ rest)"
    and "precedes (started (unit_events (logged do_task) evs (q, ([], w))) @ rest) t1 t2"
    by (simp_all add: r)
  then show ?thesis using assms(3) by (rule precedes_prefix)
qed

theorem fifo_start_order_witness:
  "precedes (started (unit_events (logged do_returning) [Put 1, Put 2, Pass, Put 3, Pass]
       (empty_queue, ([], ())))) 1 2"
proof -
  have s: "started (unit_events (logged do_returning) [Put 1, Put 2, Pass, Put 3, Pass]
       (empty_queue, ([], ()))) = [1, 2]"
    by (simp add: empty_queue_def queue_put_def thread_unit_iteration_def queue_get_def
        logged_def do_returning_def queue_task_done_def Let_def started_def)
  have d: "distinct (items (empty_queue :: nat queue) @ puts [Put 1, Put 2, Pass, Put 3, Pass])"
    by (simp add: empty_queue_def)
  have p: "precedes (items (empty_queue :: nat queue) @ puts [Put 1, Put 2, Pass, Put 3, Pass]) 1 2"
    by (simp add: empty_queue_def)
  have m: "2 \<in> set (started (unit_events (logged do_returning) [Put 1, Put 2, Pass, Put 3, Pass]
       (empty_queue, ([], ()))))" unfolding s by simp
  from fifo_start_order [OF d p m] show ?thesis .
qed

section \<open>The room of a call\<close>

text \<open>
  C3. Whatever the RoomKeeper and the Room are: a call of the wrapped function with no
  room given (\<open>room\<close> is None) and a call with the room "base" are the same \<^verbatim>\<open>do\<close> on the
  same Room, the one that the RoomKeeper gives for the name "base".
\<close>

theorem bare_shoot_routes_to_base:
  "\<exists>r s1. keeper_room ''base'' s = (r, s1)
      \<and> wrapper_with keeper_room do_room None func a kw s = do_room r func a kw s1
      \<and> wrapper_with keeper_room do_room (Some ''base'') func a kw s = do_room r func a kw s1"
  by (cases "keeper_room ''base'' s") (simp add: wrapper_with_def)

section \<open>The store: what a call and a worker do to it\<close>

lemma wf_initial: "wf initial_system"
  by (simp add: wf_def initial_system_def)

lemma once_initial: "once initial_system"
  by (simp add: once_def initial_system_def)

lemma get_room_effect:
  assumes "wf s" and "get_room (Some name) s = (r, s')"
  shows "wf s' \<and> keeper s' name = Some r \<and> r < length (rooms s') \<and> tasks s' = tasks s"
proof (cases "keeper s name")
  case None
  with assms(2) have r: "r = length (rooms s)"
    and s': "s' = s\<lparr>rooms := rooms s @ [\<lparr>room_name = name, room_queue = empty_queue\<rparr>],
                keeper := (keeper s)(name \<mapsto> length (rooms s))\<rparr>"
    by (auto simp add: get_room_def)
  have "wf s'"
    unfolding wf_def
  proof (intro conjI allI impI)
    fix n x assume "keeper s' n = Some x"
    with s' assms(1) show "x < length (rooms s')"
      by (auto simp add: wf_def less_Suc_eq split: if_splits)
  next
    fix x t assume a: "x < length (rooms s') \<and> t \<in> set (items (room_queue (rooms s' ! x)))"
    show "t < length (tasks s')"
    proof (cases "x < length (rooms s)")
      case True
      with a s' assms(1) show ?thesis by (auto simp add: wf_def nth_append)
    next
      case False
      with a s' have "x = length (rooms s)" by simp
      with a s' show ?thesis by (simp add: empty_queue_def)
    qed
  qed
  with r s' show ?thesis by simp
next
  case (Some x)
  with assms show ?thesis by (auto simp add: get_room_def wf_def)
qed

lemma room_do_effect:
  assumes "wf s" and "r < length (rooms s)" and "room_do r func a kw s = (t, s1)"
  shows "wf s1 \<and> keeper s1 = keeper s \<and> length (rooms s1) = length (rooms s)
         \<and> t = length (tasks s) \<and> tasks s1 = tasks s @ [task_create func a kw]
         \<and> items (room_queue (rooms s1 ! r)) = items (room_queue (rooms s ! r)) @ [t]"
proof -
  from assms(3) have t: "t = length (tasks s)"
    and s1: "s1 = s\<lparr>tasks := tasks s @ [task_create func a kw],
               rooms := (rooms s)[r := (rooms s ! r)\<lparr>room_queue := queue_put t (room_queue (rooms s ! r))\<rparr>]\<rparr>"
    by (auto simp add: room_do_def Let_def)
  have "wf s1"
    unfolding wf_def
  proof (intro conjI allI impI)
    fix n x assume "keeper s1 n = Some x"
    with s1 assms(1) show "x < length (rooms s1)" by (auto simp add: wf_def)
  next
    fix x u assume a: "x < length (rooms s1) \<and> u \<in> set (items (room_queue (rooms s1 ! x)))"
    show "u < length (tasks s1)"
    proof (cases "x = r")
      case True
      with a s1 t assms(1,2) show ?thesis
        by (auto simp add: wf_def queue_put_def less_Suc_eq)
    next
      case False
      with a s1 assms(1) show ?thesis
        by (auto simp add: wf_def less_Suc_eq)
    qed
  qed
  with t s1 assms(2) show ?thesis by (simp add: queue_put_def)
qed

lemma wrapper_effect:
  assumes "wf s" and "wrapper room func a kw s = (t, s1)"
  shows "\<exists>r xs. keeper s1 (room_name_of room) = Some r \<and> r < length (rooms s1)
           \<and> t = length (tasks s) \<and> tasks s1 = tasks s @ [task_create func a kw]
           \<and> items (room_queue (rooms s1 ! r)) = xs @ [t]
           \<and> (\<forall>x \<in> set xs. x < length (tasks s)) \<and> wf s1"
proof -
  obtain r s' where g: "get_room (Some (room_name_of room)) s = (r, s')"
    by (cases "get_room (Some (room_name_of room)) s")
  with assms(2) have d: "room_do r func a kw s' = (t, s1)"
    by (simp add: wrapper_def wrapper_with_def room_name_of_def)
  from get_room_effect [OF assms(1) g]
  have 1: "wf s'" "keeper s' (room_name_of room) = Some r" "r < length (rooms s')" "tasks s' = tasks s"
    by simp_all
  from room_do_effect [OF 1(1) 1(3) d]
  have 2: "wf s1" "keeper s1 = keeper s'" "length (rooms s1) = length (rooms s')"
    "t = length (tasks s')" "tasks s1 = tasks s' @ [task_create func a kw]"
    "items (room_queue (rooms s1 ! r)) = items (room_queue (rooms s' ! r)) @ [t]"
    by simp_all
  from 1(1) 1(3) have "\<forall>x \<in> set (items (room_queue (rooms s' ! r))). x < length (tasks s')"
    by (auto simp add: wf_def)
  with 1 2 show ?thesis by auto
qed

lemma shoot_decorates:
  "shoot [Func f] room s = (Inr (Applied (wrapper room (Func f))), s)"
  by (simp add: shoot_def wrapper_of_wrapper_def)

lemma wrapper_keeps_room:
  assumes "keeper s (room_name_of room) = Some r" and "wrapper room func a kw s = (t, s1)"
  shows "keeper s1 (room_name_of room) = Some r"
  using assms
  by (auto simp add: wrapper_def wrapper_with_def get_room_def room_do_def room_name_of_def Let_def)

lemma call_example:
  "wrapper None (Func add_args) [1, 2] Map.empty initial_system
     = (0, \<lparr>tasks = [task_create (Func add_args) [1, 2] Map.empty],
            rooms = [\<lparr>room_name = ''base'',
                      room_queue = \<lparr>items = [0], unfinished_tasks = 1, task_done_calls = 0\<rparr>\<rparr>],
            keeper = [''base'' \<mapsto> 0]\<rparr>)"
  by (simp add: wrapper_def wrapper_with_def get_room_def room_do_def initial_system_def empty_queue_def
      queue_put_def Let_def)

lemma get_room_once:
  assumes "once s" and "get_room (Some name) s = (r, s')"
  shows "once s'"
proof (cases "keeper s name")
  case None
  with assms(2) have s': "s' = s\<lparr>rooms := rooms s @ [\<lparr>room_name = name, room_queue = empty_queue\<rparr>],
                keeper := (keeper s)(name \<mapsto> length (rooms s))\<rparr>"
    by (auto simp add: get_room_def)
  have old: "\<And>x. x < length (rooms s) \<Longrightarrow> rooms s' ! x = rooms s ! x"
    by (simp add: s' nth_append)
  have new: "\<And>x. x < length (rooms s') \<Longrightarrow> \<not> x < length (rooms s)
      \<Longrightarrow> items (room_queue (rooms s' ! x)) = []"
    by (simp add: s' nth_append empty_queue_def less_Suc_eq)
  have tk: "tasks s' = tasks s" by (simp add: s')
  show ?thesis
    unfolding once_def
  proof (intro conjI allI impI)
    fix x u assume a: "x < length (rooms s') \<and> u \<in> set (items (room_queue (rooms s' ! x)))"
    with new have ax: "x < length (rooms s)" by fastforce
    with a old have "u \<in> set (items (room_queue (rooms s ! x)))" by simp
    with ax assms(1) tk show "\<not> completed (tasks s' ! u)" by (auto simp add: once_def)
  next
    fix x assume a: "x < length (rooms s')"
    show "distinct (items (room_queue (rooms s' ! x)))"
    proof (cases "x < length (rooms s)")
      case True
      with old assms(1) show ?thesis by (simp add: once_def)
    next
      case False
      with a new show ?thesis by simp
    qed
  next
    fix x x' u
    assume a: "x < length (rooms s') \<and> x' < length (rooms s') \<and> x \<noteq> x'
      \<and> u \<in> set (items (room_queue (rooms s' ! x)))"
    with new have ax: "x < length (rooms s)" by fastforce
    with a old have iu: "u \<in> set (items (room_queue (rooms s ! x)))" by simp
    show "u \<notin> set (items (room_queue (rooms s' ! x')))"
    proof (cases "x' < length (rooms s)")
      case True
      with a ax iu assms(1) have "u \<notin> set (items (room_queue (rooms s ! x')))"
        unfolding once_def by blast
      with True old show ?thesis by simp
    next
      case False
      with a new show ?thesis by simp
    qed
  qed
next
  case (Some x)
  with assms show ?thesis by (auto simp add: get_room_def)
qed

lemma room_do_once:
  assumes "wf s" and "once s" and "r < length (rooms s)" and "room_do r func a kw s = (t, s1)"
  shows "once s1"
proof -
  from assms(4) have t: "t = length (tasks s)"
    and s1: "s1 = s\<lparr>tasks := tasks s @ [task_create func a kw],
               rooms := (rooms s)[r := (rooms s ! r)\<lparr>room_queue := queue_put t (room_queue (rooms s ! r))\<rparr>]\<rparr>"
    by (auto simp add: room_do_def Let_def)
  have len: "length (rooms s1) = length (rooms s)" by (simp add: s1)
  have itr: "items (room_queue (rooms s1 ! r)) = items (room_queue (rooms s ! r)) @ [t]"
    using assms(3) by (simp add: s1 queue_put_def)
  have ito: "\<And>x. x \<noteq> r \<Longrightarrow> rooms s1 ! x = rooms s ! x" by (simp add: s1)
  have fresh: "\<And>x. x < length (rooms s) \<Longrightarrow> t \<notin> set (items (room_queue (rooms s ! x)))"
    using assms(1) t by (auto simp add: wf_def)
  have tnew: "\<not> completed (tasks s1 ! t)" by (simp add: s1 t task_create_def)
  have told: "\<And>u. u < length (tasks s) \<Longrightarrow> tasks s1 ! u = tasks s ! u"
    by (simp add: s1 nth_append)
  have bound: "\<And>x u. x < length (rooms s) \<Longrightarrow> u \<in> set (items (room_queue (rooms s ! x)))
      \<Longrightarrow> u < length (tasks s)"
    using assms(1) by (auto simp add: wf_def)
  have cases_in: "\<And>x u. x < length (rooms s) \<Longrightarrow> u \<in> set (items (room_queue (rooms s1 ! x)))
      \<Longrightarrow> u \<in> set (items (room_queue (rooms s ! x))) \<or> (x = r \<and> u = t)"
  proof -
    fix x u assume "x < length (rooms s)" and u: "u \<in> set (items (room_queue (rooms s1 ! x)))"
    show "u \<in> set (items (room_queue (rooms s ! x))) \<or> (x = r \<and> u = t)"
    proof (cases "x = r")
      case True
      with u itr show ?thesis by auto
    next
      case False
      with u ito show ?thesis by simp
    qed
  qed
  show ?thesis
    unfolding once_def
  proof (intro conjI allI impI)
    fix x u assume a: "x < length (rooms s1) \<and> u \<in> set (items (room_queue (rooms s1 ! x)))"
    then have ax: "x < length (rooms s)" and au: "u \<in> set (items (room_queue (rooms s1 ! x)))"
      using len by simp_all
    from cases_in [OF ax au] show "\<not> completed (tasks s1 ! u)"
    proof
      assume o: "u \<in> set (items (room_queue (rooms s ! x)))"
      from bound [OF ax o] have "tasks s1 ! u = tasks s ! u" by (rule told)
      with o ax assms(2) show ?thesis by (auto simp add: once_def)
    next
      assume "x = r \<and> u = t"
      with tnew show ?thesis by simp
    qed
  next
    fix x assume a: "x < length (rooms s1)"
    then have ax: "x < length (rooms s)" using len by simp
    show "distinct (items (room_queue (rooms s1 ! x)))"
    proof (cases "x = r")
      case True
      with itr fresh [OF ax] ax assms(2) show ?thesis by (simp add: once_def)
    next
      case False
      with ito ax assms(2) show ?thesis by (simp add: once_def)
    qed
  next
    fix x x' u
    assume a: "x < length (rooms s1) \<and> x' < length (rooms s1) \<and> x \<noteq> x'
      \<and> u \<in> set (items (room_queue (rooms s1 ! x)))"
    then have ax: "x < length (rooms s)" and ax': "x' < length (rooms s)" and ne: "x \<noteq> x'"
      and au: "u \<in> set (items (room_queue (rooms s1 ! x)))"
      using len by simp_all
    show "u \<notin> set (items (room_queue (rooms s1 ! x')))"
    proof
      assume au': "u \<in> set (items (room_queue (rooms s1 ! x')))"
      from cases_in [OF ax au] cases_in [OF ax' au'] ne
      consider "u \<in> set (items (room_queue (rooms s ! x)))" "u \<in> set (items (room_queue (rooms s ! x')))"
        | "u = t" "u \<in> set (items (room_queue (rooms s ! x)))"
        | "u = t" "u \<in> set (items (room_queue (rooms s ! x')))"
        by blast
      then show False
      proof cases
        case 1
        with ax ax' ne assms(2) show ?thesis unfolding once_def by blast
      next
        case 2
        with fresh [OF ax] show ?thesis by simp
      next
        case 3
        with fresh [OF ax'] show ?thesis by simp
      qed
    qed
  qed
qed

lemma wrapper_keeps:
  assumes "wf s" and "once s" and "wrapper room func a kw s = (t', s1)"
  shows "wf s1 \<and> once s1 \<and> length (tasks s) \<le> length (tasks s1)
       \<and> (\<forall>t < length (tasks s). tasks s1 ! t = tasks s ! t)"
proof -
  obtain r s' where g: "get_room (Some (room_name_of room)) s = (r, s')"
    by (cases "get_room (Some (room_name_of room)) s")
  with assms(3) have d: "room_do r func a kw s' = (t', s1)"
    by (simp add: wrapper_def wrapper_with_def room_name_of_def)
  from get_room_effect [OF assms(1) g]
  have 1: "wf s'" "r < length (rooms s')" "tasks s' = tasks s" by simp_all
  from get_room_once [OF assms(2) g] have o': "once s'" .
  from room_do_once [OF 1(1) o' 1(2) d] have o1: "once s1" .
  from room_do_effect [OF 1(1) 1(2) d]
  have 2: "wf s1" "tasks s1 = tasks s' @ [task_create func a kw]" by simp_all
  with 1 o1 show ?thesis by (simp add: nth_append)
qed

lemma task_do_at_iteration:
  assumes "items q = t # ts"
  shows "\<exists>q2. thread_unit_iteration task_do_at (q, h) = Continue (q2, h[t := task_do (h ! t)])
           \<and> items q2 = ts \<and> task_done_calls q2 = Suc (task_done_calls q)"
  using assms
  by (auto simp add: iteration_unfold task_do_at_def queue_task_done_def Let_def
      except_Exception_pass_def)

lemma run_task_do_at:
  "length (items q) \<le> n \<Longrightarrow>
     \<exists>q'. state_of (thread_unit_run n task_do_at (q, h)) = (q', run_tasks (items q) h)
          \<and> items q' = []
          \<and> task_done_calls q' = task_done_calls q + length (items q)
          \<and> \<not> is_dead (thread_unit_run n task_do_at (q, h))"
proof (induction n arbitrary: q h)
  case 0
  then show ?case by simp
next
  case (Suc n)
  show ?case
  proof (cases "items q")
    case Nil
    then show ?thesis by (simp add: iteration_empty)
  next
    case (Cons t ts)
    from task_do_at_iteration [OF Cons, of h]
    obtain q2 where it: "thread_unit_iteration task_do_at (q, h) = Continue (q2, h[t := task_do (h ! t)])"
      and q2: "items q2 = ts" "task_done_calls q2 = Suc (task_done_calls q)"
      by blast
    from Suc.prems Cons q2 have "length (items q2) \<le> n" by simp
    from Suc.IH [OF this, of "h[t := task_do (h ! t)]"] it q2 Cons
    show ?thesis by auto
  qed
qed

lemma run_task_do_at_gen:
  "\<exists>q'. state_of (thread_unit_run n task_do_at (q, h)) = (q', run_tasks (take n (items q)) h)
        \<and> items q' = drop n (items q)"
proof (induction n arbitrary: q h)
  case 0
  then show ?case by simp
next
  case (Suc n)
  show ?case
  proof (cases "items q")
    case Nil
    then show ?thesis by (simp add: iteration_empty)
  next
    case (Cons t ts)
    from task_do_at_iteration [OF Cons, of h]
    obtain q2 where it: "thread_unit_iteration task_do_at (q, h) = Continue (q2, h[t := task_do (h ! t)])"
      and q2: "items q2 = ts"
      by blast
    from Suc.IH [of q2 "h[t := task_do (h ! t)]"] it q2 Cons
    show ?thesis by auto
  qed
qed

lemma length_run_tasks: "length (run_tasks ts h) = length h"
  by (induction ts arbitrary: h) simp_all

lemma run_tasks_other: "t \<notin> set ts \<Longrightarrow> run_tasks ts h ! t = h ! t"
  by (induction ts arbitrary: h) auto

lemma run_tasks_snoc: "run_tasks (ts @ [t]) h = (run_tasks ts h)[t := task_do (run_tasks ts h ! t)]"
  by (induction ts arbitrary: h) simp_all

lemma run_tasks_last:
  assumes "t \<notin> set ts" and "t < length h"
  shows "run_tasks (ts @ [t]) h ! t = task_do (h ! t)"
  using assms by (simp add: run_tasks_snoc length_run_tasks run_tasks_other)

lemma await_task_do_create:
  "await_result (task_do (task_create func a kw)) = Some (call_obj func a kw)"
  by (cases "call_obj func a kw") (simp_all add: await_result_def task_do_def task_create_def)

lemma await_task_create: "await_result (task_create func a kw) = None"
  by (simp add: await_result_def task_create_def)

lemma worker_run_effect:
  assumes "wf s" and "r < length (rooms s)" and "length (items (room_queue (rooms s ! r))) \<le> n"
  shows "tasks (state_of (worker_run n r s)) = run_tasks (items (room_queue (rooms s ! r))) (tasks s)
       \<and> keeper (state_of (worker_run n r s)) = keeper s
       \<and> items (room_queue (rooms (state_of (worker_run n r s)) ! r)) = []
       \<and> task_done_calls (room_queue (rooms (state_of (worker_run n r s)) ! r))
           = task_done_calls (room_queue (rooms s ! r)) + length (items (room_queue (rooms s ! r)))
       \<and> \<not> is_dead (worker_run n r s)
       \<and> wf (state_of (worker_run n r s))"
proof -
  let ?q = "room_queue (rooms s ! r)"
  from run_task_do_at [OF assms(3), of "tasks s"]
  obtain q' where st: "state_of (thread_unit_run n task_do_at (?q, tasks s)) = (q', run_tasks (items ?q) (tasks s))"
    and q': "items q' = []" "task_done_calls q' = task_done_calls ?q + length (items ?q)"
    and alive: "\<not> is_dead (thread_unit_run n task_do_at (?q, tasks s))"
    by blast
  have so: "state_of (worker_run n r s) = set_room_state r (q', run_tasks (items ?q) (tasks s)) s"
    using st by (cases "thread_unit_run n task_do_at (?q, tasks s)") (simp_all add: worker_run_def)
  have al: "\<not> is_dead (worker_run n r s)"
    using alive by (cases "thread_unit_run n task_do_at (?q, tasks s)") (simp_all add: worker_run_def)
  have "wf (set_room_state r (q', run_tasks (items ?q) (tasks s)) s)"
    unfolding wf_def
  proof (intro conjI allI impI)
    fix nm x assume "keeper (set_room_state r (q', run_tasks (items ?q) (tasks s)) s) nm = Some x"
    with assms(1) show "x < length (rooms (set_room_state r (q', run_tasks (items ?q) (tasks s)) s))"
      by (auto simp add: wf_def set_room_state_def)
  next
    fix x u
    assume a: "x < length (rooms (set_room_state r (q', run_tasks (items ?q) (tasks s)) s))
      \<and> u \<in> set (items (room_queue (rooms (set_room_state r (q', run_tasks (items ?q) (tasks s)) s) ! x)))"
    show "u < length (tasks (set_room_state r (q', run_tasks (items ?q) (tasks s)) s))"
    proof (cases "x = r")
      case True
      with a q' show ?thesis by (auto simp add: set_room_state_def)
    next
      case False
      with a assms(1) show ?thesis
        by (auto simp add: set_room_state_def wf_def length_run_tasks)
    qed
  qed
  with so al q' assms(2) show ?thesis by (simp add: set_room_state_def)
qed

lemma worker_run_state:
  "\<exists>q'. state_of (worker_run n r s)
          = set_room_state r (q', run_tasks (take n (items (room_queue (rooms s ! r)))) (tasks s)) s
        \<and> items q' = drop n (items (room_queue (rooms s ! r)))"
proof -
  let ?q = "room_queue (rooms s ! r)"
  from run_task_do_at_gen [of n ?q "tasks s"]
  obtain q' where st: "state_of (thread_unit_run n task_do_at (?q, tasks s)) = (q', run_tasks (take n (items ?q)) (tasks s))"
    and q': "items q' = drop n (items ?q)"
    by blast
  have "state_of (worker_run n r s) = set_room_state r (q', run_tasks (take n (items ?q)) (tasks s)) s"
    using st by (cases "thread_unit_run n task_do_at (?q, tasks s)") (simp_all add: worker_run_def)
  with q' show ?thesis by blast
qed

lemma worker_run_keeps:
  assumes "wf s" and "once s" and "r < length (rooms s)"
  shows "wf (state_of (worker_run n r s)) \<and> once (state_of (worker_run n r s))
       \<and> length (tasks (state_of (worker_run n r s))) = length (tasks s)
       \<and> (\<forall>t. completed (tasks s ! t) \<longrightarrow> tasks (state_of (worker_run n r s)) ! t = tasks s ! t)"
proof -
  let ?xs = "items (room_queue (rooms s ! r))"
  from worker_run_state [of n r s]
  obtain q' where so: "state_of (worker_run n r s)
          = set_room_state r (q', run_tasks (take n ?xs) (tasks s)) s"
    and q': "items q' = drop n ?xs" by blast
  let ?s' = "set_room_state r (q', run_tasks (take n ?xs) (tasks s)) s"
  have len: "length (rooms ?s') = length (rooms s)" "length (tasks ?s') = length (tasks s)"
    "keeper ?s' = keeper s" "tasks ?s' = run_tasks (take n ?xs) (tasks s)"
    by (simp_all add: set_room_state_def length_run_tasks)
  have itr: "items (room_queue (rooms ?s' ! r)) = drop n ?xs"
    using assms(3) q' by (simp add: set_room_state_def)
  have ito: "\<And>x. x \<noteq> r \<Longrightarrow> rooms ?s' ! x = rooms s ! x"
    by (simp add: set_room_state_def)
  have sub: "\<And>x u. x < length (rooms s) \<Longrightarrow> u \<in> set (items (room_queue (rooms ?s' ! x)))
      \<Longrightarrow> u \<in> set (items (room_queue (rooms s ! x)))"
  proof -
    fix x u assume "x < length (rooms s)" and u: "u \<in> set (items (room_queue (rooms ?s' ! x)))"
    show "u \<in> set (items (room_queue (rooms s ! x)))"
    proof (cases "x = r")
      case True
      with u itr show ?thesis by (auto dest: in_set_dropD)
    next
      case False
      with u ito show ?thesis by simp
    qed
  qed
  have dis: "distinct ?xs" using assms(2,3) by (simp add: once_def)
  have untouched: "\<And>x u. x < length (rooms s) \<Longrightarrow> u \<in> set (items (room_queue (rooms ?s' ! x)))
      \<Longrightarrow> u \<notin> set (take n ?xs)"
  proof -
    fix x u assume x: "x < length (rooms s)" and u: "u \<in> set (items (room_queue (rooms ?s' ! x)))"
    show "u \<notin> set (take n ?xs)"
    proof (cases "x = r")
      case True
      with u itr have "u \<in> set (drop n ?xs)" by simp
      moreover from dis have "set (take n ?xs) \<inter> set (drop n ?xs) = {}"
        by (metis append_take_drop_id distinct_append)
      ultimately show ?thesis by blast
    next
      case False
      with u ito have "u \<in> set (items (room_queue (rooms s ! x)))" by simp
      with assms(2,3) x False have "u \<notin> set ?xs" by (auto simp add: once_def)
      then show ?thesis by (auto dest: in_set_takeD)
    qed
  qed
  have wf': "wf ?s'"
    unfolding wf_def
  proof (intro conjI allI impI)
    fix nm x assume "keeper ?s' nm = Some x"
    with assms(1) len show "x < length (rooms ?s')" by (simp add: wf_def)
  next
    fix x u assume a: "x < length (rooms ?s') \<and> u \<in> set (items (room_queue (rooms ?s' ! x)))"
    then have ax: "x < length (rooms s)" and au: "u \<in> set (items (room_queue (rooms ?s' ! x)))"
      using len by simp_all
    from sub [OF ax au] have "u \<in> set (items (room_queue (rooms s ! x)))" .
    with ax assms(1) len show "u < length (tasks ?s')" by (auto simp add: wf_def)
  qed
  have once': "once ?s'"
    unfolding once_def
  proof (intro conjI allI impI)
    fix x u assume a: "x < length (rooms ?s') \<and> u \<in> set (items (room_queue (rooms ?s' ! x)))"
    then have ax: "x < length (rooms s)" and au: "u \<in> set (items (room_queue (rooms ?s' ! x)))"
      using len by simp_all
    from sub [OF ax au] have in_old: "u \<in> set (items (room_queue (rooms s ! x)))" .
    from untouched [OF ax au] have "u \<notin> set (take n ?xs)" .
    then have "tasks ?s' ! u = tasks s ! u" by (simp add: len run_tasks_other)
    with in_old ax assms(2) show "\<not> completed (tasks ?s' ! u)" by (auto simp add: once_def)
  next
    fix x assume a: "x < length (rooms ?s')"
    show "distinct (items (room_queue (rooms ?s' ! x)))"
    proof (cases "x = r")
      case True
      with itr dis show ?thesis by simp
    next
      case False
      with a ito assms(2) len show ?thesis by (simp add: once_def)
    qed
  next
    fix x x' u
    assume a: "x < length (rooms ?s') \<and> x' < length (rooms ?s') \<and> x \<noteq> x'
      \<and> u \<in> set (items (room_queue (rooms ?s' ! x)))"
    then have ax: "x < length (rooms s)" and ax': "x' < length (rooms s)" and ne: "x \<noteq> x'"
      and au: "u \<in> set (items (room_queue (rooms ?s' ! x)))"
      using len by simp_all
    from sub [OF ax au] have "u \<in> set (items (room_queue (rooms s ! x)))" .
    with ax ax' ne assms(2) have "u \<notin> set (items (room_queue (rooms s ! x')))"
      unfolding once_def by blast
    with sub [OF ax'] show "u \<notin> set (items (room_queue (rooms ?s' ! x')))" by blast
  qed
  have keep: "\<forall>t. completed (tasks s ! t) \<longrightarrow> tasks ?s' ! t = tasks s ! t"
  proof (intro allI impI)
    fix t assume "completed (tasks s ! t)"
    with assms(2,3) have "t \<notin> set ?xs" by (auto simp add: once_def)
    then have "t \<notin> set (take n ?xs)" by (auto dest: in_set_takeD)
    then show "tasks ?s' ! t = tasks s ! t" by (simp add: len run_tasks_other)
  qed
  from wf' once' len keep so show ?thesis by simp
qed

lemma await_after_run:
  assumes "wf s"
      and "wrapper room func a kw s = (t, s1)"
      and "keeper s1 (room_name_of room) = Some r"
      and "length (items (room_queue (rooms s1 ! r))) \<le> n"
  shows "await_result (tasks s1 ! t) = None
       \<and> await_result (tasks (state_of (worker_run n r s1)) ! t) = Some (call_obj func a kw)
       \<and> task_done_calls (room_queue (rooms (state_of (worker_run n r s1)) ! r))
           = task_done_calls (room_queue (rooms s1 ! r)) + length (items (room_queue (rooms s1 ! r)))
       \<and> \<not> is_dead (worker_run n r s1)
       \<and> wf (state_of (worker_run n r s1))
       \<and> keeper (state_of (worker_run n r s1)) = keeper s1"
proof -
  from wrapper_effect [OF assms(1,2)] assms(3)
  obtain xs where r: "r < length (rooms s1)"
    and t: "t = length (tasks s)" "tasks s1 = tasks s @ [task_create func a kw]"
    and q: "items (room_queue (rooms s1 ! r)) = xs @ [t]"
    and xs: "\<forall>x \<in> set xs. x < length (tasks s)"
    and wf1: "wf s1"
    by auto
  from t have at: "tasks s1 ! t = task_create func a kw" by simp
  from xs t have nin: "t \<notin> set xs" by auto
  from t have lt: "t < length (tasks s1)" by simp
  from worker_run_effect [OF wf1 r assms(4)]
  have w: "tasks (state_of (worker_run n r s1)) = run_tasks (xs @ [t]) (tasks s1)"
    "keeper (state_of (worker_run n r s1)) = keeper s1"
    "task_done_calls (room_queue (rooms (state_of (worker_run n r s1)) ! r))
           = task_done_calls (room_queue (rooms s1 ! r)) + length (items (room_queue (rooms s1 ! r)))"
    "\<not> is_dead (worker_run n r s1)" "wf (state_of (worker_run n r s1))"
    by (simp_all add: q)
  from run_tasks_last [OF nin lt] at
  have "run_tasks (xs @ [t]) (tasks s1) ! t = task_do (task_create func a kw)" by simp
  with w at show ?thesis by (simp add: await_task_do_create await_task_create)
qed

lemma completed_task_do: "completed (task_do tk)"
  by (cases "call_obj (task_target tk) (task_args tk) (task_kwargs tk)")
     (simp_all add: task_do_def)

lemma run_tasks_member:
  "distinct xs \<Longrightarrow> t \<in> set xs \<Longrightarrow> t < length h \<Longrightarrow> run_tasks xs h ! t = task_do (h ! t)"
proof (induction xs arbitrary: h)
  case Nil
  then show ?case by simp
next
  case (Cons x xs)
  show ?case
  proof (cases "x = t")
    case True
    with Cons.prems have "t \<notin> set xs" by simp
    then have "run_tasks xs (h[t := task_do (h ! t)]) ! t = h[t := task_do (h ! t)] ! t"
      by (rule run_tasks_other)
    with True Cons.prems show ?thesis by simp
  next
    case False
    with Cons.prems have "distinct xs" "t \<in> set xs" "t < length (h[x := task_do (h ! x)])"
      by simp_all
    from Cons.IH [OF this] False show ?thesis by simp
  qed
qed

lemma wrapper_queue_grows:
  assumes "r < length (rooms s)" and "wrapper room func a kw s = (t', s1)"
  shows "r < length (rooms s1)
       \<and> set (items (room_queue (rooms s ! r))) \<subseteq> set (items (room_queue (rooms s1 ! r)))"
proof -
  obtain x s' where g: "get_room (Some (room_name_of room)) s = (x, s')"
    by (cases "get_room (Some (room_name_of room)) s")
  with assms(2) have d: "room_do x func a kw s' = (t', s1)"
    by (simp add: wrapper_def wrapper_with_def room_name_of_def)
  from g assms(1) have 1: "r < length (rooms s')" "rooms s' ! r = rooms s ! r"
    by (auto simp add: get_room_def nth_append Let_def split: option.splits)
  from d 1 show ?thesis
    by (cases "x = r") (auto simp add: room_do_def Let_def queue_put_def)
qed

lemma tracked_wrapper:
  assumes "wf s" and "once s" and "tracked s t r tk" and "wrapper room func a kw s = (t', s1)"
  shows "tracked s1 t r tk"
proof -
  from assms(3) have t: "t < length (tasks s)" and r: "r < length (rooms s)"
    by (simp_all add: tracked_def)
  from wrapper_keeps [OF assms(1,2,4)] t
  have 1: "t < length (tasks s1)" "tasks s1 ! t = tasks s ! t" by auto
  from wrapper_queue_grows [OF r assms(4)]
  have 2: "r < length (rooms s1)"
    "set (items (room_queue (rooms s ! r))) \<subseteq> set (items (room_queue (rooms s1 ! r)))"
    by simp_all
  from assms(3) 1 2 show ?thesis by (auto simp add: tracked_def)
qed

lemma tracked_worker_run:
  assumes "wf s" and "once s" and "tracked s t r tk" and "x < length (rooms s)"
  shows "tracked (state_of (worker_run n x s)) t r tk"
proof -
  let ?xs = "items (room_queue (rooms s ! x))"
  let ?s' = "state_of (worker_run n x s)"
  from assms(3) have t: "t < length (tasks s)" and r: "r < length (rooms s)"
    by (simp_all add: tracked_def)
  from worker_run_state [of n x s]
  obtain q' where so: "?s' = set_room_state x (q', run_tasks (take n ?xs) (tasks s)) s"
    and q': "items q' = drop n ?xs" by blast
  have len: "length (tasks ?s') = length (tasks s)" "length (rooms ?s') = length (rooms s)"
    and tk': "tasks ?s' = run_tasks (take n ?xs) (tasks s)"
    by (simp_all add: so set_room_state_def length_run_tasks)
  have itx: "items (room_queue (rooms ?s' ! x)) = drop n ?xs"
    using assms(4) q' by (simp add: so set_room_state_def)
  have ito: "r \<noteq> x \<Longrightarrow> rooms ?s' ! r = rooms s ! r"
    by (simp add: so set_room_state_def)
  have dis: "distinct ?xs" using assms(2,4) by (simp add: once_def)
  from assms(3) have "(tasks s ! t = tk \<and> t \<in> set (items (room_queue (rooms s ! r))))
          \<or> tasks s ! t = task_do tk" by (simp add: tracked_def)
  then have "(tasks ?s' ! t = tk \<and> t \<in> set (items (room_queue (rooms ?s' ! r))))
          \<or> tasks ?s' ! t = task_do tk"
  proof
    assume p: "tasks s ! t = tk \<and> t \<in> set (items (room_queue (rooms s ! r)))"
    show ?thesis
    proof (cases "r = x")
      case True
      show ?thesis
      proof (cases "t \<in> set (take n ?xs)")
        case True
        from dis have "distinct (take n ?xs)" by simp
        from run_tasks_member [OF this True t] p tk' show ?thesis by simp
      next
        case False
        with p \<open>r = x\<close> have "t \<in> set (drop n ?xs)"
          by (metis Un_iff append_take_drop_id set_append)
        moreover from False have "tasks ?s' ! t = tasks s ! t"
          by (simp add: tk' run_tasks_other)
        ultimately show ?thesis using p itx \<open>r = x\<close> by simp
      qed
    next
      case False
      with p r assms(2,4) have "t \<notin> set ?xs" unfolding once_def by blast
      then have "t \<notin> set (take n ?xs)" by (auto dest: in_set_takeD)
      then have "tasks ?s' ! t = tasks s ! t" by (simp add: tk' run_tasks_other)
      with p False ito show ?thesis by simp
    qed
  next
    assume d: "tasks s ! t = task_do tk"
    then have "completed (tasks s ! t)" by (simp add: completed_task_do)
    with worker_run_keeps [OF assms(1,2,4), of n] d show ?thesis by simp
  qed
  with t r len show ?thesis by (simp add: tracked_def)
qed

lemma system_events_keeps:
  assumes "wf s" and "once s" and "tracked s t r tk"
  shows "wf (system_events evs s) \<and> once (system_events evs s) \<and> tracked (system_events evs s) t r tk"
  using assms
proof (induction evs arbitrary: s)
  case Nil
  then show ?case by simp
next
  case (Cons ev evs)
  show ?case
  proof (cases ev)
    case (Call room func a kw)
    obtain t' s1 where c: "wrapper room func a kw s = (t', s1)"
      by (cases "wrapper room func a kw s")
    from wrapper_keeps [OF Cons.prems(1,2) c] have "wf s1" "once s1" by simp_all
    moreover from tracked_wrapper [OF Cons.prems c] have "tracked s1 t r tk" .
    ultimately show ?thesis using Cons.IH [of s1] Call c by simp
  next
    case (Work x n)
    show ?thesis
    proof (cases "x < length (rooms s)")
      case True
      from worker_run_keeps [OF Cons.prems(1,2) True, of n]
      have "wf (state_of (worker_run n x s))" "once (state_of (worker_run n x s))" by simp_all
      moreover from tracked_worker_run [OF Cons.prems True]
      have "tracked (state_of (worker_run n x s)) t r tk" .
      ultimately show ?thesis using Cons.IH [of "state_of (worker_run n x s)"] Work True by simp
    next
      case False
      with Cons.IH [of s] Cons.prems Work show ?thesis by simp
    qed
  qed
qed

lemma tracked_drained:
  assumes "wf s" and "once s" and "tracked s t r tk"
      and "length (items (room_queue (rooms s ! r))) \<le> n"
  shows "tasks (state_of (worker_run n r s)) ! t = task_do tk"
proof -
  from assms(3) have r: "r < length (rooms s)" by (simp add: tracked_def)
  from tracked_worker_run [OF assms(1,2,3) r, of n]
  have "(tasks (state_of (worker_run n r s)) ! t = tk
          \<and> t \<in> set (items (room_queue (rooms (state_of (worker_run n r s)) ! r))))
        \<or> tasks (state_of (worker_run n r s)) ! t = task_do tk"
    by (simp add: tracked_def)
  moreover from worker_run_effect [OF assms(1) r assms(4)]
  have "items (room_queue (rooms (state_of (worker_run n r s)) ! r)) = []" by simp
  ultimately show ?thesis by simp
qed

lemma await_after_events:
  assumes "wf s" and "once s"
      and "wrapper room func a kw s = (t, s1)"
      and "keeper s1 (room_name_of room) = Some r"
  shows "(await_result (tasks (system_events evs s1) ! t) = None
           \<or> await_result (tasks (system_events evs s1) ! t) = Some (call_obj func a kw))
       \<and> wf (system_events evs s1) \<and> r < length (rooms (system_events evs s1))
       \<and> (length (items (room_queue (rooms (system_events evs s1) ! r))) \<le> n
            \<longrightarrow> await_result (tasks (state_of (worker_run n r (system_events evs s1))) ! t)
                  = Some (call_obj func a kw))"
proof -
  let ?tk = "task_create func a kw"
  from wrapper_effect [OF assms(1,3)] assms(4)
  obtain xs where r: "r < length (rooms s1)"
    and t: "t = length (tasks s)" "tasks s1 = tasks s @ [?tk]"
    and q: "items (room_queue (rooms s1 ! r)) = xs @ [t]"
    by auto
  from wrapper_keeps [OF assms(1,2,3)] have 1: "wf s1" "once s1" by simp_all
  from r t q have "tracked s1 t r ?tk" by (simp add: tracked_def)
  from system_events_keeps [OF 1 this, of evs]
  have 2: "wf (system_events evs s1)" "once (system_events evs s1)"
    "tracked (system_events evs s1) t r ?tk" by simp_all
  from 2(3) have "tasks (system_events evs s1) ! t = ?tk
      \<or> tasks (system_events evs s1) ! t = task_do ?tk"
    by (auto simp add: tracked_def)
  then have safe: "await_result (tasks (system_events evs s1) ! t) = None
           \<or> await_result (tasks (system_events evs s1) ! t) = Some (call_obj func a kw)"
    by (auto simp add: await_task_create await_task_do_create)
  from 2(3) have r': "r < length (rooms (system_events evs s1))" by (simp add: tracked_def)
  from tracked_drained [OF 2] safe 2(1) r' show ?thesis
    by (simp add: await_task_do_create)
qed

section \<open>A completed task keeps its outcome\<close>

text \<open>
  C8. In a well-formed store in which every queued task is queued once and has not been
  run, a completed Task
  keeps its outcome: whatever happens between two reads (calls of wrapped functions,
  passes of workers, or nothing), the second read returns what the first returned, the
  same result or the same failure. A read itself changes nothing.
\<close>

theorem completed_outcome_read_is_stable:
  assumes "wf s" and "once s" and "t < length (tasks s)" and "completed (tasks s ! t)"
  shows "await_result (tasks (system_events evs s) ! t) = await_result (tasks s ! t)"
proof -
  have "tasks (system_events evs s) ! t = tasks s ! t"
    using assms
  proof (induction evs arbitrary: s)
    case Nil
    show ?case by simp
  next
    case (Cons ev evs)
    show ?case
    proof (cases ev)
      case (Call room func a kw)
      obtain t' s1 where c: "wrapper room func a kw s = (t', s1)"
        by (cases "wrapper room func a kw s")
      from wrapper_keeps [OF Cons.prems(1,2) c] Cons.prems(3,4)
      have "wf s1" "once s1" "t < length (tasks s1)" "tasks s1 ! t = tasks s ! t"
        by auto
      with Cons.IH [of s1] Cons.prems(4) Call c show ?thesis by simp
    next
      case (Work r n)
      show ?thesis
      proof (cases "r < length (rooms s)")
        case True
        let ?s1 = "state_of (worker_run n r s)"
        from worker_run_keeps [OF Cons.prems(1,2) True, of n] Cons.prems(3,4)
        have "wf ?s1" "once ?s1" "t < length (tasks ?s1)" "tasks ?s1 ! t = tasks s ! t"
          by auto
        with Cons.IH [of ?s1] Cons.prems(4) Work True show ?thesis by simp
      next
        case False
        with Cons.IH [of s] Cons.prems Work show ?thesis by simp
      qed
    qed
  qed
  then show ?thesis by simp
qed

theorem completed_outcome_read_is_stable_witness:
  "await_result (tasks (system_events [Call None (Func failing) [] Map.empty, Work 0 2]
       example_done) ! 0) = await_result (tasks example_done ! 0)
   \<and> await_result (tasks example_done ! 0) = Some (Inr 3)"
proof -
  let ?s1 = "snd (wrapper None (Func add_args) [1, 2] Map.empty initial_system)"
  have c: "wrapper None (Func add_args) [1, 2] Map.empty initial_system = (0, ?s1)"
    by (simp add: call_example)
  from wrapper_keeps [OF wf_initial once_initial c]
  have 1: "wf ?s1" "once ?s1" by simp_all
  have r: "0 < length (rooms ?s1)" by (simp add: call_example)
  from worker_run_keeps [OF 1 r, of 1]
  have w: "wf example_done" and o: "once example_done"
    and l: "length (tasks example_done) = length (tasks ?s1)"
    by (simp_all add: example_done_def)
  from l have t: "0 < length (tasks example_done)" by (simp add: call_example)
  have ts: "tasks example_done ! 0 = task_do (task_create (Func add_args) [1, 2] Map.empty)"
    by (simp add: example_done_def call_example worker_run_def thread_unit_iteration_def
        queue_get_def task_do_at_def queue_task_done_def Let_def set_room_state_def)
  have d: "completed (tasks example_done ! 0)"
    by (simp add: ts task_do_def task_create_def call_obj_def add_args_def)
  have v: "await_result (tasks example_done ! 0) = Some (Inr 3)"
    by (simp add: ts await_task_do_create call_obj_def add_args_def)
  have e: "await_result (tasks (system_events [Call None (Func failing) [] Map.empty, Work 0 2]
       example_done) ! 0) = await_result (tasks example_done ! 0)"
    by (rule completed_outcome_read_is_stable [OF w o t d])
  from e v show ?thesis by (rule conjI)
qed

lemma worker_run_keeper: "keeper (state_of (worker_run n x s)) = keeper s"
proof -
  from worker_run_state [of n x s] obtain q' where
    "state_of (worker_run n x s)
       = set_room_state x (q', run_tasks (take n (items (room_queue (rooms s ! x)))) (tasks s)) s"
    by blast
  then show ?thesis by (simp add: set_room_state_def)
qed

lemma system_events_keeps_room:
  "keeper s (room_name_of room) = Some r
     \<Longrightarrow> keeper (system_events evs s) (room_name_of room) = Some r"
proof (induction evs arbitrary: s)
  case Nil
  then show ?case by simp
next
  case (Cons ev evs)
  show ?case
  proof (cases ev)
    case (Call room2 func a kw)
    from Cons.prems have "keeper (snd (wrapper room2 func a kw s)) (room_name_of room) = Some r"
      by (auto simp add: wrapper_def wrapper_with_def get_room_def room_do_def Let_def split: option.splits)
    from Cons.IH [OF this] Call show ?thesis by simp
  next
    case (Work x n)
    from Cons.prems have "keeper (state_of (worker_run n x s)) (room_name_of room) = Some r"
      by (simp add: worker_run_keeper)
    from Cons.IH [OF this] Cons.IH [OF Cons.prems] Work show ?thesis by simp
  qed
qed

section \<open>From the call to the awaited outcome\<close>

text \<open>
  C1. In a well-formed store in which every queued task is queued once and has not been
  run, for every function \<open>f\<close> that returns \<open>v\<close> on the arguments
  \<open>a\<close>, \<open>kw\<close>: decorating \<open>f\<close> with \<open>shoot\<close> gives a wrapped function and changes nothing;
  calling it with \<open>a\<close>, \<open>kw\<close> returns a handle at once, whose awaiter is still suspended.
  Whatever happens then (other calls, passes of any worker), the awaiter is suspended or
  gets \<open>v\<close>, never anything else; and once the worker of the room has made as many passes
  of its loop as its queue is long, or more, awaiting the handle yields \<open>v\<close>, the value of
  the direct call.
\<close>

theorem await_shoot_call_returns_value:
  assumes "wf s" and "once s" and "f a kw = Inr v"
  shows "\<exists>w t s1 r.
           shoot [Func f] room s = (Inr (Applied w), s)
         \<and> w a kw s = (t, s1)
         \<and> keeper s1 (room_name_of room) = Some r
         \<and> await_result (tasks s1 ! t) = None
         \<and> (\<forall>evs.
               (await_result (tasks (system_events evs s1) ! t) = None
                 \<or> await_result (tasks (system_events evs s1) ! t) = Some (Inr v))
             \<and> (\<forall>n \<ge> length (items (room_queue (rooms (system_events evs s1) ! r))).
                   await_result (tasks (state_of (worker_run n r (system_events evs s1))) ! t)
                     = Some (Inr v)))"
proof -
  obtain t s1 where c: "wrapper room (Func f) a kw s = (t, s1)"
    by (cases "wrapper room (Func f) a kw s")
  from wrapper_effect [OF assms(1) c]
  obtain r where r: "keeper s1 (room_name_of room) = Some r" by blast
  from assms(3) have v: "call_obj (Func f) a kw = Inr v" by (simp add: call_obj_def)
  have "await_result (tasks s1 ! t) = None"
    using await_after_run [OF assms(1) c r order_refl] by simp
  moreover have "\<forall>evs.
               (await_result (tasks (system_events evs s1) ! t) = None
                 \<or> await_result (tasks (system_events evs s1) ! t) = Some (Inr v))
             \<and> (\<forall>n \<ge> length (items (room_queue (rooms (system_events evs s1) ! r))).
                   await_result (tasks (state_of (worker_run n r (system_events evs s1))) ! t)
                     = Some (Inr v))"
    using await_after_events [OF assms(1,2) c r] v by simp
  ultimately show ?thesis using shoot_decorates [of f room s] c r by blast
qed

theorem await_shoot_call_returns_value_witness:
  "wf (initial_system :: (int, int) system)
   \<and> once (initial_system :: (int, int) system)
   \<and> add_args [1, 2] Map.empty = Inr 3
   \<and> (\<exists>w t s1 r.
           shoot [Func add_args] None initial_system = (Inr (Applied w), initial_system)
         \<and> w [1, 2] Map.empty initial_system = (t, s1)
         \<and> keeper s1 (room_name_of None) = Some r
         \<and> await_result (tasks s1 ! t) = None
         \<and> (\<forall>evs.
               (await_result (tasks (system_events evs s1) ! t) = None
                 \<or> await_result (tasks (system_events evs s1) ! t) = Some (Inr 3))
             \<and> (\<forall>n \<ge> length (items (room_queue (rooms (system_events evs s1) ! r))).
                   await_result (tasks (state_of (worker_run n r (system_events evs s1))) ! t)
                     = Some (Inr 3))))
   \<and> await_result (tasks (state_of (worker_run 1 0
         (snd (wrapper None (Func add_args) [1, 2] Map.empty initial_system)))) ! 0) = Some (Inr 3)"
proof -
  have h1: "wf (initial_system :: (int, int) system)" by (rule wf_initial)
  have h2: "once (initial_system :: (int, int) system)" by (rule once_initial)
  have h3: "add_args [1, 2] Map.empty = Inr 3" by (simp add: add_args_def)
  have e: "await_result (tasks (state_of (worker_run 1 0
         (snd (wrapper None (Func add_args) [1, 2] Map.empty initial_system)))) ! 0) = Some (Inr 3)"
    by (simp add: call_example worker_run_def thread_unit_iteration_def queue_get_def
        task_do_at_def queue_task_done_def Let_def set_room_state_def task_do_def
        task_create_def call_obj_def add_args_def await_result_def)
  from await_shoot_call_returns_value
         [where f = add_args and a = "[1, 2]" and kw = Map.empty and v = 3
            and s = initial_system and room = None, OF h1 h2 h3]
       h1 h2 h3 e
  show ?thesis by blast
qed

text \<open>
  C4. In a well-formed store in which every queued task is queued once and has not been
  run, for every function \<open>f\<close> that raises \<open>e\<close> on the arguments
  \<open>a\<close>, \<open>kw\<close>: the call of the wrapped function still returns a handle, and \<^verbatim>\<open>task.do()\<close>
  on it raises nothing into the loop of the worker. Whatever happens then, the awaiter is
  suspended or gets \<open>e\<close> re-raised; once the worker of the room has made as many passes
  as its queue is long, or more, awaiting the handle re-raises \<open>e\<close>, the worker is not
  dead, every one of these passes has gone through to task_done(), and whatever is
  submitted to the room afterwards is executed and its outcome delivered in the same way.
\<close>

theorem await_shoot_call_reraises:
  assumes "wf s" and "once s" and "f a kw = Inl e"
  shows "\<exists>w t s1 r.
           shoot [Func f] room s = (Inr (Applied w), s)
         \<and> w a kw s = (t, s1)
         \<and> keeper s1 (room_name_of room) = Some r
         \<and> (\<forall>h. fst (task_do_at t h) = None)
         \<and> (\<forall>evs.
               (await_result (tasks (system_events evs s1) ! t) = None
                 \<or> await_result (tasks (system_events evs s1) ! t) = Some (Inl e))
             \<and> (\<forall>n \<ge> length (items (room_queue (rooms (system_events evs s1) ! r))).
                   await_result (tasks (state_of (worker_run n r (system_events evs s1))) ! t)
                     = Some (Inl e)
                 \<and> \<not> is_dead (worker_run n r (system_events evs s1))
                 \<and> task_done_calls
                       (room_queue (rooms (state_of (worker_run n r (system_events evs s1))) ! r))
                     = task_done_calls (room_queue (rooms (system_events evs s1) ! r))
                       + length (items (room_queue (rooms (system_events evs s1) ! r)))
                 \<and> (\<forall>func2 b kw2 t2 s3 m.
                       wrapper room func2 b kw2 (state_of (worker_run n r (system_events evs s1)))
                         = (t2, s3)
                       \<and> length (items (room_queue (rooms s3 ! r))) \<le> m
                       \<longrightarrow> await_result (tasks (state_of (worker_run m r s3)) ! t2)
                             = Some (call_obj func2 b kw2))))"
proof -
  obtain t s1 where c: "wrapper room (Func f) a kw s = (t, s1)"
    by (cases "wrapper room (Func f) a kw s")
  from wrapper_effect [OF assms(1) c]
  obtain r where r: "keeper s1 (room_name_of room) = Some r" by blast
  from assms(3) have v: "call_obj (Func f) a kw = Inl e" by (simp add: call_obj_def)
  have "(await_result (tasks (system_events evs s1) ! t) = None
                 \<or> await_result (tasks (system_events evs s1) ! t) = Some (Inl e))
             \<and> (\<forall>n \<ge> length (items (room_queue (rooms (system_events evs s1) ! r))).
                   await_result (tasks (state_of (worker_run n r (system_events evs s1))) ! t)
                     = Some (Inl e)
                 \<and> \<not> is_dead (worker_run n r (system_events evs s1))
                 \<and> task_done_calls
                       (room_queue (rooms (state_of (worker_run n r (system_events evs s1))) ! r))
                     = task_done_calls (room_queue (rooms (system_events evs s1) ! r))
                       + length (items (room_queue (rooms (system_events evs s1) ! r)))
                 \<and> (\<forall>func2 b kw2 t2 s3 m.
                       wrapper room func2 b kw2 (state_of (worker_run n r (system_events evs s1)))
                         = (t2, s3)
                       \<and> length (items (room_queue (rooms s3 ! r))) \<le> m
                       \<longrightarrow> await_result (tasks (state_of (worker_run m r s3)) ! t2)
                             = Some (call_obj func2 b kw2)))" for evs
  proof -
    let ?s' = "system_events evs s1"
    have safe: "await_result (tasks ?s' ! t) = None \<or> await_result (tasks ?s' ! t) = Some (Inl e)"
      and wf': "wf ?s'" and r': "r < length (rooms ?s')"
      using await_after_events [OF assms(1,2) c r, of evs 0] v by simp_all
    from system_events_keeps_room [OF r] have k': "keeper ?s' (room_name_of room) = Some r" .
    have "await_result (tasks (state_of (worker_run n r ?s')) ! t) = Some (Inl e)
                 \<and> \<not> is_dead (worker_run n r ?s')
                 \<and> task_done_calls (room_queue (rooms (state_of (worker_run n r ?s')) ! r))
                     = task_done_calls (room_queue (rooms ?s' ! r))
                       + length (items (room_queue (rooms ?s' ! r)))
                 \<and> (\<forall>func2 b kw2 t2 s3 m.
                       wrapper room func2 b kw2 (state_of (worker_run n r ?s')) = (t2, s3)
                       \<and> length (items (room_queue (rooms s3 ! r))) \<le> m
                       \<longrightarrow> await_result (tasks (state_of (worker_run m r s3)) ! t2)
                             = Some (call_obj func2 b kw2))"
      if n: "length (items (room_queue (rooms ?s' ! r))) \<le> n" for n
    proof -
      let ?s2 = "state_of (worker_run n r ?s')"
      from await_after_events [OF assms(1,2) c r, of evs n] n v
      have first: "await_result (tasks ?s2 ! t) = Some (Inl e)" by simp
      from worker_run_effect [OF wf' r' n]
      have alive: "\<not> is_dead (worker_run n r ?s')"
        and calls: "task_done_calls (room_queue (rooms ?s2 ! r))
                     = task_done_calls (room_queue (rooms ?s' ! r))
                       + length (items (room_queue (rooms ?s' ! r)))"
        and wf2: "wf ?s2" and k2: "keeper ?s2 = keeper ?s'"
        by simp_all
      have "await_result (tasks (state_of (worker_run m r s3)) ! t2) = Some (call_obj func2 b kw2)"
        if c2: "wrapper room func2 b kw2 ?s2 = (t2, s3)"
          and m: "length (items (room_queue (rooms s3 ! r))) \<le> m"
        for func2 b kw2 t2 s3 m
      proof -
        from k' k2 have "keeper ?s2 (room_name_of room) = Some r" by simp
        from wrapper_keeps_room [OF this c2] have r3: "keeper s3 (room_name_of room) = Some r" .
        from await_after_run [OF wf2 c2 r3 m] show ?thesis by simp
      qed
      with first alive calls show ?thesis by blast
    qed
    with safe show ?thesis by blast
  qed
  moreover have "\<forall>h. fst (task_do_at t h) = None" by (simp add: task_do_at_def)
  ultimately show ?thesis using shoot_decorates [of f room s] c r by blast
qed

theorem await_shoot_call_reraises_witness:
  "wf (initial_system :: (int, int) system)
   \<and> once (initial_system :: (int, int) system)
   \<and> failing [1, 2] Map.empty = Inl (OtherException ''boom'')
   \<and> (\<exists>w t s1 r.
           shoot [Func failing] None initial_system = (Inr (Applied w), initial_system)
         \<and> w [1, 2] Map.empty initial_system = (t, s1)
         \<and> keeper s1 (room_name_of None) = Some r
         \<and> (\<forall>n \<ge> length (items (room_queue (rooms (system_events [] s1) ! r))).
               await_result (tasks (state_of (worker_run n r (system_events [] s1))) ! t)
                 = Some (Inl (OtherException ''boom''))
             \<and> \<not> is_dead (worker_run n r (system_events [] s1))))
   \<and> await_result (tasks (state_of (worker_run 1 0
         (snd (wrapper None (Func failing) [1, 2] Map.empty initial_system)))) ! 0)
       = Some (Inl (OtherException ''boom''))
   \<and> \<not> is_dead (worker_run 1 0
         (snd (wrapper None (Func failing) [1, 2] Map.empty initial_system)))"
proof -
  have h1: "wf (initial_system :: (int, int) system)" by (rule wf_initial)
  have h2: "once (initial_system :: (int, int) system)" by (rule once_initial)
  have h3: "failing [1, 2] Map.empty = Inl (OtherException ''boom'')"
    by (simp add: failing_def)
  have c: "wrapper None (Func failing) [1, 2] Map.empty initial_system
     = (0, \<lparr>tasks = [task_create (Func failing) [1, 2] Map.empty],
            rooms = [\<lparr>room_name = ''base'',
                      room_queue = \<lparr>items = [0], unfinished_tasks = 1, task_done_calls = 0\<rparr>\<rparr>],
            keeper = [''base'' \<mapsto> 0]\<rparr>)"
    by (simp add: wrapper_def wrapper_with_def get_room_def room_do_def initial_system_def empty_queue_def
        queue_put_def Let_def)
  have e: "await_result (tasks (state_of (worker_run 1 0
         (snd (wrapper None (Func failing) [1, 2] Map.empty initial_system)))) ! 0)
       = Some (Inl (OtherException ''boom''))"
    by (simp add: c worker_run_def thread_unit_iteration_def queue_get_def
        task_do_at_def queue_task_done_def Let_def set_room_state_def task_do_def
        task_create_def call_obj_def failing_def await_result_def)
  have a: "\<not> is_dead (worker_run 1 0
         (snd (wrapper None (Func failing) [1, 2] Map.empty initial_system)))"
    by (simp add: c worker_run_def thread_unit_iteration_def queue_get_def
        task_do_at_def queue_task_done_def Let_def)
  from await_shoot_call_reraises
         [where f = failing and a = "[1, 2]" and kw = Map.empty
            and e = "OtherException ''boom''" and s = initial_system and room = None,
          OF h1 h2 h3]
  obtain w t s1 r where
    1: "shoot [Func failing] None initial_system = (Inr (Applied w), initial_system)"
      "w [1, 2] Map.empty initial_system = (t, s1)"
      "keeper s1 (room_name_of None) = Some r"
    and 2: "\<forall>evs. (\<forall>n \<ge> length (items (room_queue (rooms (system_events evs s1) ! r))).
               await_result (tasks (state_of (worker_run n r (system_events evs s1))) ! t)
                 = Some (Inl (OtherException ''boom''))
             \<and> \<not> is_dead (worker_run n r (system_events evs s1)))"
    by blast
  from 2 have "\<forall>n \<ge> length (items (room_queue (rooms (system_events [] s1) ! r))).
               await_result (tasks (state_of (worker_run n r (system_events [] s1))) ! t)
                 = Some (Inl (OtherException ''boom''))
             \<and> \<not> is_dead (worker_run n r (system_events [] s1))" by (rule spec)
  with 1 h1 h2 h3 e a show ?thesis by blast
qed

end
